theory Spec2Isabelle
  imports Complex_Main "HOL-Library.Sublist" "HOL-Library.List_Lexorder" "HOL-Library.Char_ord"
begin

section \<open>The scheduler of scripts/code.py\<close>

text \<open>
  A shallow embedding of the scheduler core, the plan compiler's commit protocol and the
  worker's command-safety gate of \<^verbatim>\<open>scripts/code.py\<close>.

  Conventions of the embedding.
  \<^item> The SQLite tables \<^verbatim>\<open>jobs\<close>, \<^verbatim>\<open>job_deps\<close> and \<^verbatim>\<open>events\<close> are lists in rowid
    (insertion) order; rows are never deleted. An \<^verbatim>\<open>UPDATE ... WHERE\<close> rewrites every
    row that satisfies its guard, and its rowcount is the number of such rows.
  \<^item> Every \<^verbatim>\<open>time.time()\<close> read of an operation is a parameter of type \<open>real\<close>
    (seconds); floating-point rounding is not modelled. The timestamp column of the
    event log, a clock read of its own, is left out of the event rows.
  \<^item> A Python string is a \<open>string\<close>; SQL NULL and Python None are \<open>None\<close>.
  \<^item> An exception is a value \<open>Inl e\<close>; a connection closed without a commit loses its
    uncommitted writes.
\<close>

subsection \<open>Constants\<close>

definition LEASE_MS :: int where
  "LEASE_MS = 30000"

definition MAX_ATTEMPTS :: int where
  "MAX_ATTEMPTS = 3"

definition VALID_PREFIXES :: "string list" where
  "VALID_PREFIXES = [''@file:'', ''@cmd:'', ''@url:'', ''@git:'', ''@gh:'', ''@doc:'']"

subsection \<open>The tables\<close>

datatype status = Queued | Running | Done | Failed

datatype event_kind = Enqueued | Claimed | EvDone | EvFailed | Requeued | DedupeSkip

record job =
  job_id :: string
  lane :: int
  payload :: string
  status :: status
  holder :: "string option"
  lease_until :: "real option"
  created_at :: real
  updated_at :: real
  error :: "string option"
  attempts :: int
  max_attempts :: int
  dedupe_key :: "string option"

record event =
  ev_job :: string
  ev_kind :: event_kind
  ev_msg :: string

record store =
  jobs :: "job list"
  job_deps :: "(string \<times> string) list"
  events :: "event list"

definition empty_store :: store where
  "empty_store = \<lparr>jobs = [], job_deps = [], events = []\<rparr>"

datatype exn =
    BadPayload string
  | OrphanIdeas nat
  | BadLane
  | NoSteps
  | UnknownDep string string

text \<open>\<^verbatim>\<open>UPDATE jobs SET ... WHERE guard\<close> and its rowcount.\<close>

definition update_where :: "(job \<Rightarrow> bool) \<Rightarrow> (job \<Rightarrow> job) \<Rightarrow> job list \<Rightarrow> job list" where
  "update_where guard upd js = map (\<lambda>j. if guard j then upd j else j) js"

definition rowcount :: "(job \<Rightarrow> bool) \<Rightarrow> job list \<Rightarrow> nat" where
  "rowcount guard js = length (filter guard js)"

text \<open>The row of a job id, as \<^verbatim>\<open>SELECT * FROM jobs WHERE id=?\<close> reads it.\<close>

definition find_job :: "store \<Rightarrow> string \<Rightarrow> job option" where
  "find_job s jid = find (\<lambda>j. job_id j = jid) (jobs s)"

text \<open>
  The primary key of \<^verbatim>\<open>jobs\<close>: no two rows share an id. Every reachable store
  respects it (\<open>reachable_pk\<close>).
\<close>

definition jobs_pk :: "store \<Rightarrow> bool" where
  "jobs_pk s = distinct (map job_id (jobs s))"

subsection \<open>The store layer\<close>

definition log_event :: "string \<Rightarrow> event_kind \<Rightarrow> string \<Rightarrow> store \<Rightarrow> store" where
  "log_event jid kind msg s =
     s\<lparr>events := events s @ [\<lparr>ev_job = jid, ev_kind = kind, ev_msg = take 500 msg\<rparr>]\<rparr>"

definition validate_payload :: "string \<Rightarrow> bool" where
  "validate_payload pl = list_ex (\<lambda>p. prefix p pl) VALID_PREFIXES"

text \<open>\<^verbatim>\<open>INSERT OR IGNORE INTO jobs\<close>: the primary key \<^verbatim>\<open>id\<close> decides.\<close>

definition insert_job :: "job \<Rightarrow> job list \<Rightarrow> job list" where
  "insert_job j js = (if list_ex (\<lambda>k. job_id k = job_id j) js then js else js @ [j])"

definition enqueue_job ::
  "real \<Rightarrow> string \<Rightarrow> int \<Rightarrow> string \<Rightarrow> string option \<Rightarrow> int \<Rightarrow> store \<Rightarrow> exn + store" where
  "enqueue_job now jid la pl dk ma s =
     (if \<not> validate_payload pl then Inl (BadPayload (take 80 pl))
      else Inr (log_event jid Enqueued (take 120 pl)
        (s\<lparr>jobs := insert_job
            \<lparr>job_id = jid, lane = la, payload = pl, status = Queued, holder = None,
             lease_until = None, created_at = now, updated_at = now, error = None,
             attempts = 0, max_attempts = ma, dedupe_key = dk\<rparr> (jobs s)\<rparr>)))"

definition add_dep :: "string \<Rightarrow> string \<Rightarrow> store \<Rightarrow> store" where
  "add_dep jid dep s =
     (if (jid, dep) \<in> set (job_deps s) then s else s\<lparr>job_deps := job_deps s @ [(jid, dep)]\<rparr>)"

subsection \<open>The stale-lease sweep\<close>

text \<open>The SET clauses of the sweep's two updates.\<close>

definition requeue_set :: "real \<Rightarrow> job \<Rightarrow> job" where
  "requeue_set now j = j\<lparr>status := Queued, holder := None, lease_until := None, updated_at := now\<rparr>"

definition exceeded_set :: "real \<Rightarrow> job \<Rightarrow> job" where
  "exceeded_set now j = j\<lparr>status := Failed, error := Some ''max attempts exceeded'', updated_at := now\<rparr>"

definition is_stale :: "real \<Rightarrow> job \<Rightarrow> bool" where
  "is_stale now j =
     (status j = Running \<and> (case lease_until j of None \<Rightarrow> False | Some l \<Rightarrow> l < now))"

definition requeue_row :: "real \<Rightarrow> string \<times> int \<times> int \<Rightarrow> store \<Rightarrow> store" where
  "requeue_row now row s =
     (case row of (rid, att, mx) \<Rightarrow>
        if att < mx then
          log_event rid Requeued ''stale lease''
            (s\<lparr>jobs := update_where (\<lambda>j. job_id j = rid) (requeue_set now) (jobs s)\<rparr>)
        else
          log_event rid EvFailed ''max attempts exceeded''
            (s\<lparr>jobs := update_where (\<lambda>j. job_id j = rid) (exceeded_set now) (jobs s)\<rparr>))"

definition stale_rows :: "real \<Rightarrow> store \<Rightarrow> (string \<times> int \<times> int) list" where
  "stale_rows now s = map (\<lambda>j. (job_id j, attempts j, max_attempts j)) (filter (is_stale now) (jobs s))"

definition requeue_stale :: "real \<Rightarrow> store \<Rightarrow> store \<times> nat" where
  "requeue_stale now s = (fold (requeue_row now) (stale_rows now s) s, length (stale_rows now s))"

subsection \<open>The artifact index\<close>

text \<open>
  The artifact directory is \<open>None\<close> when it does not exist, and otherwise the names of
  its entries. \<open>stem\<close> is pathlib's (Python 3.4 to 3.13): the name up to its last dot,
  unless that dot is the first or the last character.
\<close>

fun rfind :: "char \<Rightarrow> string \<Rightarrow> nat option" where
  "rfind c [] = None"
| "rfind c (x # xs) =
     (case rfind c xs of Some i \<Rightarrow> Some (Suc i) | None \<Rightarrow> if x = c then Some 0 else None)"

definition stem :: "string \<Rightarrow> string" where
  "stem name =
     (case rfind CHR ''.'' name of
        None \<Rightarrow> name
      | Some i \<Rightarrow> if 0 < i \<and> i < length name - 1 then take i name else name)"

definition check_dedupe :: "string list option \<Rightarrow> string option \<Rightarrow> bool" where
  "check_dedupe arts dk =
     (case dk of
        None \<Rightarrow> False
      | Some k \<Rightarrow>
          if k = [] then False
          else (case arts of None \<Rightarrow> False | Some names \<Rightarrow> list_ex (\<lambda>f. stem f = k) names))"

subsection \<open>Claim\<close>

record claimed_job =
  cj_id :: string
  cj_lane :: int
  cj_payload :: string
  cj_dedupe_key :: "string option"

definition row_of :: "job \<Rightarrow> claimed_job" where
  "row_of j = \<lparr>cj_id = job_id j, cj_lane = lane j, cj_payload = payload j, cj_dedupe_key = dedupe_key j\<rparr>"

text \<open>The \<^verbatim>\<open>NOT EXISTS\<close> subquery: an edge whose dependency row exists and is not done.\<close>

definition dep_blocked :: "store \<Rightarrow> job \<Rightarrow> bool" where
  "dep_blocked s j =
     list_ex (\<lambda>d. fst d = job_id j \<and> list_ex (\<lambda>dj. job_id dj = snd d \<and> status dj \<noteq> Done) (jobs s))
       (job_deps s)"

definition is_ready :: "store \<Rightarrow> int option \<Rightarrow> job \<Rightarrow> bool" where
  "is_ready s la j =
     (status j = Queued \<and> (case la of None \<Rightarrow> True | Some l \<Rightarrow> lane j = l) \<and> \<not> dep_blocked s j)"

text \<open>\<^verbatim>\<open>LIMIT ?\<close>: a negative limit is no limit.\<close>

definition sql_limit :: "int \<Rightarrow> 'a list \<Rightarrow> 'a list" where
  "sql_limit n xs = (if n < 0 then xs else take (nat n) xs)"

text \<open>
  The ready query. \<^verbatim>\<open>ORDER BY j.created_at\<close> names no second key: rows of equal
  \<^verbatim>\<open>created_at\<close> stay in the order of the scan (rowid order), which the stable
  \<open>sort_key\<close> keeps.
\<close>

definition select_ready :: "store \<Rightarrow> int option \<Rightarrow> int \<Rightarrow> job list" where
  "select_ready s la batch = sql_limit batch (sort_key created_at (filter (is_ready s la) (jobs s)))"

text \<open>The SET clauses of the dedupe update and of the claim update.\<close>

definition dedupe_set :: "real \<Rightarrow> string \<Rightarrow> job \<Rightarrow> job" where
  "dedupe_set now h j = j\<lparr>status := Done, holder := Some h, updated_at := now\<rparr>"

definition running_set :: "real \<Rightarrow> real \<Rightarrow> string \<Rightarrow> job \<Rightarrow> job" where
  "running_set now lease h j =
     j\<lparr>status := Running, holder := Some h, lease_until := Some lease,
       attempts := attempts j + 1, updated_at := now\<rparr>"

definition claim_row ::
  "real \<Rightarrow> real \<Rightarrow> string \<Rightarrow> string list option \<Rightarrow> claimed_job \<Rightarrow>
     store \<times> claimed_job list \<Rightarrow> store \<times> claimed_job list" where
  "claim_row now lease h arts row st =
     (case st of (s, claimed) \<Rightarrow>
        if check_dedupe arts (cj_dedupe_key row) then
          (log_event (cj_id row) DedupeSkip
             (''artifact exists for '' @ (case cj_dedupe_key row of Some k \<Rightarrow> k | None \<Rightarrow> ''None''))
             (s\<lparr>jobs := update_where (\<lambda>j. job_id j = cj_id row \<and> status j = Queued)
                (dedupe_set now h) (jobs s)\<rparr>),
           claimed)
        else
          (let s1 = s\<lparr>jobs := update_where (\<lambda>j. job_id j = cj_id row \<and> status j = Queued)
                      (running_set now lease h) (jobs s)\<rparr>
           in if 0 < rowcount (\<lambda>j. job_id j = cj_id row \<and> status j = Queued) (jobs s)
              then (log_event (cj_id row) Claimed (''holder='' @ h) s1, claimed @ [row])
              else (s1, claimed)))"

text \<open>
  \<open>claim_ready t0 now h la batch lease_ms arts s\<close>: \<open>t0\<close> is the clock the sweep reads,
  \<open>now\<close> the clock the claim reads after it, \<open>arts\<close> the artifact directory.
\<close>

definition claim_ready ::
  "real \<Rightarrow> real \<Rightarrow> string \<Rightarrow> int option \<Rightarrow> int \<Rightarrow> int \<Rightarrow> string list option \<Rightarrow> store \<Rightarrow>
     store \<times> claimed_job list" where
  "claim_ready t0 now h la batch lease_ms arts s =
     (let s1 = fst (requeue_stale t0 s);
          lease = now + real_of_int lease_ms / 1000;
          rows = map row_of (select_ready s1 la batch)
      in fold (claim_row now lease h arts) rows (s1, []))"

subsection \<open>Done, failed, heartbeat\<close>

text \<open>Python's \<^verbatim>\<open>if holder:\<close> takes None and the empty string alike as no holder.\<close>

definition holder_guard :: "string option \<Rightarrow> job \<Rightarrow> bool" where
  "holder_guard h j = (case h of None \<Rightarrow> True | Some w \<Rightarrow> if w = [] then True else holder j = Some w)"

definition done_set :: "real \<Rightarrow> job \<Rightarrow> job" where
  "done_set now j = j\<lparr>status := Done, updated_at := now\<rparr>"

definition failed_set :: "real \<Rightarrow> string \<Rightarrow> job \<Rightarrow> job" where
  "failed_set now err j = j\<lparr>status := Failed, error := Some (take 1000 err), updated_at := now\<rparr>"

definition heartbeat_set :: "real \<Rightarrow> int \<Rightarrow> job \<Rightarrow> job" where
  "heartbeat_set now lease_ms j =
     j\<lparr>lease_until := Some (now + real_of_int lease_ms / 1000), updated_at := now\<rparr>"

definition mark_done :: "real \<Rightarrow> string \<Rightarrow> string option \<Rightarrow> store \<Rightarrow> store" where
  "mark_done now jid h s =
     log_event jid EvDone []
       (s\<lparr>jobs := update_where (\<lambda>j. job_id j = jid \<and> status j = Running \<and> holder_guard h j)
          (done_set now) (jobs s)\<rparr>)"

definition mark_failed :: "real \<Rightarrow> string \<Rightarrow> string \<Rightarrow> string option \<Rightarrow> store \<Rightarrow> store" where
  "mark_failed now jid err h s =
     log_event jid EvFailed (take 200 err)
       (s\<lparr>jobs := update_where (\<lambda>j. job_id j = jid \<and> status j = Running \<and> holder_guard h j)
          (failed_set now err) (jobs s)\<rparr>)"

definition heartbeat :: "real \<Rightarrow> string \<Rightarrow> string \<Rightarrow> int \<Rightarrow> store \<Rightarrow> store \<times> bool" where
  "heartbeat now jid h lease_ms s =
     (s\<lparr>jobs := update_where (\<lambda>j. job_id j = jid \<and> status j = Running \<and> holder j = Some h)
         (heartbeat_set now lease_ms) (jobs s)\<rparr>,
      0 < rowcount (\<lambda>j. job_id j = jid \<and> status j = Running \<and> holder j = Some h) (jobs s))"

subsection \<open>The enqueue endpoint\<close>

text \<open>
  \<^verbatim>\<open>POST /enqueue\<close>: the job, then its dependency edges, then the commit. A payload
  that fails validation raises before any write, and the store stays as it was.
\<close>

definition post_enqueue ::
  "real \<Rightarrow> string \<Rightarrow> int \<Rightarrow> string \<Rightarrow> string list \<Rightarrow> string option \<Rightarrow> int \<Rightarrow> store \<Rightarrow> exn + store" where
  "post_enqueue now jid la pl deps dk ma s =
     (case enqueue_job now jid la pl dk ma s of
        Inl e \<Rightarrow> Inl e
      | Inr s1 \<Rightarrow> Inr (fold (add_dep jid) deps s1))"

subsection \<open>The plan compiler's commit protocol\<close>

text \<open>
  \<open>expand_plan\<close> takes the outcome of \<^verbatim>\<open>parse_plan\<close> (its exception, or the plan id
  and the parsed steps) as a parameter, and the durable store; it returns the durable
  store after the call with the call's outcome. \<open>clock k\<close> is the time the \<open>k\<close>-th
  \<^verbatim>\<open>enqueue_job\<close> reads. The function commits twice: after the jobs, and after the
  dependency edges. An exception leaves the store as of the last commit.
\<close>

record step =
  st_id :: string
  st_global_id :: string
  st_lane :: int
  st_payload :: string
  st_deps :: "string list"
  st_dedupe_key :: "string option"

fun enqueue_steps :: "(nat \<Rightarrow> real) \<Rightarrow> nat \<Rightarrow> step list \<Rightarrow> store \<Rightarrow> exn + store" where
  "enqueue_steps clock k [] s = Inr s"
| "enqueue_steps clock k (st # sts) s =
     (case enqueue_job (clock k) (st_global_id st) (st_lane st) (st_payload st)
             (st_dedupe_key st) MAX_ATTEMPTS s of
        Inl e \<Rightarrow> Inl e
      | Inr s1 \<Rightarrow> enqueue_steps clock (Suc k) sts s1)"

fun add_step_deps :: "(string \<rightharpoonup> string) \<Rightarrow> step \<Rightarrow> string list \<Rightarrow> store \<Rightarrow> exn + store" where
  "add_step_deps id_map st [] s = Inr s"
| "add_step_deps id_map st (d # ds) s =
     (case id_map d of
        None \<Rightarrow> Inl (UnknownDep (st_id st) d)
      | Some g \<Rightarrow> add_step_deps id_map st ds (add_dep (st_global_id st) g s))"

fun add_all_deps :: "(string \<rightharpoonup> string) \<Rightarrow> step list \<Rightarrow> store \<Rightarrow> exn + store" where
  "add_all_deps id_map [] s = Inr s"
| "add_all_deps id_map (st # sts) s =
     (case add_step_deps id_map st (st_deps st) s of
        Inl e \<Rightarrow> Inl e
      | Inr s1 \<Rightarrow> add_all_deps id_map sts s1)"

text \<open>The dict comprehension \<^verbatim>\<open>{s["id"]: s["global_id"] for s in steps}\<close>: the last step of an id wins.\<close>

definition id_map_of :: "step list \<Rightarrow> (string \<rightharpoonup> string)" where
  "id_map_of steps = map_of (rev (map (\<lambda>st. (st_id st, st_global_id st)) steps))"

definition expand_plan ::
  "(nat \<Rightarrow> real) \<Rightarrow> exn + string \<times> step list \<Rightarrow> store \<Rightarrow> store \<times> (exn + string \<times> nat)" where
  "expand_plan clock parsed db =
     (case parsed of
        Inl e \<Rightarrow> (db, Inl e)
      | Inr (plan_id, steps) \<Rightarrow>
          if steps = [] then (db, Inl NoSteps)
          else (case enqueue_steps clock 0 steps db of
                  Inl e \<Rightarrow> (db, Inl e)
                | Inr committed \<Rightarrow>
                    (case add_all_deps (id_map_of steps) steps committed of
                       Inl e \<Rightarrow> (committed, Inl e)
                     | Inr s2 \<Rightarrow> (s2, Inr (plan_id, length steps)))))"

subsection \<open>Runs of the scheduler\<close>

text \<open>
  One constructor per scheduler operation, with the operation's arguments and the clock
  reads it makes. A reachable store is \<open>run cs empty_store\<close>.
\<close>

datatype call =
    CEnqueue real string int string "string list" "string option" int
  | CClaim real real string "int option" int int "string list option"
  | CHeartbeat real string string int
  | CMarkDone real string "string option"
  | CMarkFailed real string string "string option"
  | CRequeueStale real
  | CExpandPlan "nat \<Rightarrow> real" "exn + string \<times> step list"

fun apply_call :: "call \<Rightarrow> store \<Rightarrow> store" where
  "apply_call (CEnqueue now jid la pl deps dk ma) s =
     (case post_enqueue now jid la pl deps dk ma s of Inl e \<Rightarrow> s | Inr s1 \<Rightarrow> s1)"
| "apply_call (CClaim t0 now h la batch lease_ms arts) s = fst (claim_ready t0 now h la batch lease_ms arts s)"
| "apply_call (CHeartbeat now jid h lease_ms) s = fst (heartbeat now jid h lease_ms s)"
| "apply_call (CMarkDone now jid h) s = mark_done now jid h s"
| "apply_call (CMarkFailed now jid err h) s = mark_failed now jid err h s"
| "apply_call (CRequeueStale now) s = fst (requeue_stale now s)"
| "apply_call (CExpandPlan clock parsed) s = fst (expand_plan clock parsed s)"

definition run :: "call list \<Rightarrow> store \<Rightarrow> store" where
  "run cs s = fold apply_call cs s"

subsection \<open>The command-safety gate\<close>

definition CMD_ALLOWLIST :: "string list" where
  "CMD_ALLOWLIST =
     [''echo '', ''cat '', ''test '', ''ls '', ''mkdir '', ''cp '', ''mv '',
      ''go test'', ''go build'', ''go vet'', ''go fmt'',
      ''python'', ''pip '', ''npm '', ''npx '', ''node '',
      ''make'', ''cargo '', ''rustc '',
      ''git '', ''diff '', ''patch '',
      ''swift '', ''xcodebuild'',
      ''./code '', ''./scripts/code'',
      ''true'', ''false'',
      ''touch '', ''rm '',
      ''head '', ''tail '', ''wc '', ''sort '', ''uniq '',
      ''grep '', ''rg '', ''fd '',
      ''sha1sum'', ''sha256sum'', ''md5sum'',
      ''sleep '']"

definition CMD_BLOCKLIST :: "string list" where
  "CMD_BLOCKLIST =
     [''rm -rf /'', ''rm -rf ~'', ''sudo '', ''curl '', ''wget '',
      ''eval '', ''> /dev/'', ''mkfs'', ''dd if='', '':(){ '']"

text \<open>
  \<^verbatim>\<open>str.isspace\<close> on the code points below 256 (a \<open>char\<close> is one such code point):
  tab to carriage return, the separators 28 to 31, the space, NEL and the no-break space.
\<close>

definition is_space :: "char \<Rightarrow> bool" where
  "is_space c = ((of_char c :: nat) \<in> set [9, 10, 11, 12, 13, 28, 29, 30, 31, 32, 133, 160])"

definition strip :: "string \<Rightarrow> string" where
  "strip s = rev (dropWhile is_space (rev (dropWhile is_space s)))"

definition is_cmd_safe :: "string \<Rightarrow> bool" where
  "is_cmd_safe cmd =
     (let cmd_stripped = strip cmd in
        if list_ex (\<lambda>blocked. sublist blocked cmd_stripped) CMD_BLOCKLIST then False
        else if list_ex (\<lambda>p. prefix p cmd_stripped \<or> cmd_stripped = strip p) CMD_ALLOWLIST then True
        else if prefix ''./'' cmd_stripped then True
        else False)"

subsection \<open>The two loops, row by row\<close>

text \<open>
  What one iteration of the sweep and of the claim loop does to one row of \<^verbatim>\<open>jobs\<close>,
  what the whole loop does to it, and the event an iteration of the claim loop appends.
  These restate the model for the proofs: the lemmas \<open>requeue_stale_jobs\<close> and
  \<open>claim_loop\<close> derive them from \<open>requeue_stale\<close> and \<open>claim_row\<close>.
\<close>

definition sweep_upd :: "real \<Rightarrow> string \<times> int \<times> int \<Rightarrow> job \<Rightarrow> job" where
  "sweep_upd now row j =
     (if job_id j = fst row then
        (if fst (snd row) < snd (snd row) then requeue_set now j else exceeded_set now j)
      else j)"

definition sweep_job :: "real \<Rightarrow> job \<Rightarrow> job" where
  "sweep_job now j =
     (if is_stale now j then
        (if attempts j < max_attempts j then requeue_set now j else exceeded_set now j)
      else j)"

definition claim_upd :: "real \<Rightarrow> real \<Rightarrow> string \<Rightarrow> string list option \<Rightarrow> claimed_job \<Rightarrow> job \<Rightarrow> job" where
  "claim_upd now lease h arts row j =
     (if job_id j = cj_id row \<and> status j = Queued then
        (if check_dedupe arts (cj_dedupe_key row) then dedupe_set now h j
         else running_set now lease h j)
      else j)"

definition claim_job :: "real \<Rightarrow> real \<Rightarrow> string \<Rightarrow> string list option \<Rightarrow> string set \<Rightarrow> job \<Rightarrow> job" where
  "claim_job now lease h arts ids j =
     (if job_id j \<in> ids \<and> status j = Queued then
        (if check_dedupe arts (dedupe_key j) then dedupe_set now h j
         else running_set now lease h j)
      else j)"

definition claim_event :: "string \<Rightarrow> string list option \<Rightarrow> claimed_job \<Rightarrow> event" where
  "claim_event h arts row =
     (if check_dedupe arts (cj_dedupe_key row) then
        \<lparr>ev_job = cj_id row, ev_kind = DedupeSkip,
         ev_msg = take 500 (''artifact exists for '' @ (case cj_dedupe_key row of Some k \<Rightarrow> k | None \<Rightarrow> ''None''))\<rparr>
      else \<lparr>ev_job = cj_id row, ev_kind = Claimed, ev_msg = take 500 (''holder='' @ h)\<rparr>)"

text \<open>
  The two row invariants of the reachable stores: a running row has a holder and a lease
  and a queued row has neither; a row whose cap is at least 1 is within its cap, and below
  it while queued.
\<close>

definition running_ok :: "job \<Rightarrow> bool" where
  "running_ok j =
     ((status j = Running \<longrightarrow> holder j \<noteq> None \<and> lease_until j \<noteq> None)
      \<and> (status j = Queued \<longrightarrow> holder j = None \<and> lease_until j = None))"

definition attempts_ok :: "job \<Rightarrow> bool" where
  "attempts_ok j =
     (1 \<le> max_attempts j \<longrightarrow> attempts j \<le> max_attempts j \<and> (status j = Queued \<longrightarrow> attempts j < max_attempts j))"

definition running_inv :: "store \<Rightarrow> bool" where
  "running_inv s = list_all running_ok (jobs s)"

definition store_inv :: "store \<Rightarrow> bool" where
  "store_inv s = (jobs_pk s \<and> list_all attempts_ok (jobs s))"

section \<open>Properties\<close>

subsection \<open>Rows and updates\<close>

lemma find_map_ids:
  assumes "\<And>x. job_id (f x) = job_id x"
  shows "find (\<lambda>j. job_id j = jid) (map f js) = map_option f (find (\<lambda>j. job_id j = jid) js)"
  using assms by (induction js) auto

lemma find_unique:
  "distinct (map job_id js) \<Longrightarrow> j \<in> set js \<Longrightarrow> find (\<lambda>k. job_id k = job_id j) js = Some j"
  by (induction js) (auto simp: image_iff)

lemma find_job_mem: "find_job s jid = Some j \<Longrightarrow> j \<in> set (jobs s) \<and> job_id j = jid"
  by (auto simp: find_job_def find_Some_iff)

lemma find_job_unique: "jobs_pk s \<Longrightarrow> j \<in> set (jobs s) \<Longrightarrow> find_job s (job_id j) = Some j"
  by (simp add: find_job_def jobs_pk_def find_unique)

lemma update_where_ids:
  "(\<And>x. job_id (upd x) = job_id x) \<Longrightarrow> map job_id (update_where g upd js) = map job_id js"
  by (induction js) (auto simp: update_where_def)

lemma update_where_none:
  "(\<And>j. j \<in> set js \<Longrightarrow> \<not> g j) \<Longrightarrow> update_where g upd js = js"
  by (induction js) (auto simp: update_where_def)

lemma rowcount_pos: "0 < rowcount g js \<longleftrightarrow> (\<exists>j \<in> set js. g j)"
  by (auto simp: rowcount_def filter_empty_conv)

lemma find_update_where:
  assumes "\<And>x. job_id (upd x) = job_id x"
  shows "find (\<lambda>j. job_id j = jid) (update_where g upd js) =
         map_option (\<lambda>j. if g j then upd j else j) (find (\<lambda>j. job_id j = jid) js)"
  unfolding update_where_def using assms by (intro find_map_ids) simp

lemma set_ids [simp]:
  "job_id (done_set now j) = job_id j" "job_id (failed_set now err j) = job_id j"
  "job_id (heartbeat_set now ms j) = job_id j" "job_id (requeue_set now j) = job_id j"
  "job_id (exceeded_set now j) = job_id j" "job_id (dedupe_set now h j) = job_id j"
  "job_id (running_set now l h j) = job_id j"
  by (simp_all add: done_set_def failed_set_def heartbeat_set_def requeue_set_def
      exceeded_set_def dedupe_set_def running_set_def)

lemma guard_ex_find:
  assumes "jobs_pk s"
  shows "(\<exists>k \<in> set (jobs s). job_id k = jid \<and> Q k) = (\<exists>j. find_job s jid = Some j \<and> Q j)"
proof
  assume "\<exists>k \<in> set (jobs s). job_id k = jid \<and> Q k"
  then obtain k where k: "k \<in> set (jobs s)" "job_id k = jid" "Q k" by blast
  from find_job_unique [OF assms k(1)] k(2) have "find_job s jid = Some k" by simp
  with k(3) show "\<exists>j. find_job s jid = Some j \<and> Q j" by blast
next
  assume "\<exists>j. find_job s jid = Some j \<and> Q j"
  then show "\<exists>k \<in> set (jobs s). job_id k = jid \<and> Q k"
    by (blast dest: find_job_mem)
qed

subsection \<open>Heartbeat\<close>

text \<open>
  Claim C7. \<open>heartbeat\<close> returns true exactly when the store records the job with
  status running and its holder equal to the given holder. On success the row keeps
  every column but \<open>lease_until\<close>, which becomes now plus the lease (milliseconds, as
  seconds), and \<open>updated_at\<close>; no row changes status; on failure the store is unchanged.
\<close>

theorem heartbeat_iff_running_holder:
  assumes "jobs_pk s"
  shows "snd (heartbeat now jid h lease_ms s) =
           (\<exists>j. find_job s jid = Some j \<and> status j = Running \<and> holder j = Some h)
    \<and> (\<forall>j. find_job s jid = Some j \<and> status j = Running \<and> holder j = Some h \<longrightarrow>
          find_job (fst (heartbeat now jid h lease_ms s)) jid =
            Some (j\<lparr>lease_until := Some (now + real_of_int lease_ms / 1000), updated_at := now\<rparr>))
    \<and> map status (jobs (fst (heartbeat now jid h lease_ms s))) = map status (jobs s)
    \<and> (\<not> snd (heartbeat now jid h lease_ms s) \<longrightarrow> fst (heartbeat now jid h lease_ms s) = s)"
proof -
  let ?g = "\<lambda>k. job_id k = jid \<and> status k = Running \<and> holder k = Some h"
  have ex: "(\<exists>k \<in> set (jobs s). ?g k) =
      (\<exists>j. find_job s jid = Some j \<and> status j = Running \<and> holder j = Some h)"
    by (rule guard_ex_find [OF assms])
  have ok: "snd (heartbeat now jid h lease_ms s) = (\<exists>k \<in> set (jobs s). ?g k)"
    by (simp add: heartbeat_def rowcount_pos)
  have hit: "find_job (fst (heartbeat now jid h lease_ms s)) jid =
      Some (j\<lparr>lease_until := Some (now + real_of_int lease_ms / 1000), updated_at := now\<rparr>)"
    if "find_job s jid = Some j \<and> status j = Running \<and> holder j = Some h" for j
  proof -
    from that have "job_id j = jid" by (blast dest: find_job_mem)
    with that show ?thesis
      by (simp add: heartbeat_def find_job_def find_update_where heartbeat_set_def)
  qed
  have st: "map status (jobs (fst (heartbeat now jid h lease_ms s))) = map status (jobs s)"
    by (simp add: heartbeat_def update_where_def heartbeat_set_def)
  have miss: "fst (heartbeat now jid h lease_ms s) = s"
    if "\<not> snd (heartbeat now jid h lease_ms s)"
  proof -
    from that ok have "\<not> ?g k" if "k \<in> set (jobs s)" for k
      using that by blast
    then have "update_where ?g (heartbeat_set now lease_ms) (jobs s) = jobs s"
      by (rule update_where_none)
    then show ?thesis by (simp add: heartbeat_def)
  qed
  from ex ok hit st miss show ?thesis by blast
qed

theorem heartbeat_iff_running_holder_witness:
  "jobs_pk (run [CEnqueue 0 ''j'' 0 ''@cmd:true'' [] None 3, CClaim 1 1 ''w'' None 1 30000 None] empty_store)
   \<and> snd (heartbeat 2 ''j'' ''w'' 30000
        (run [CEnqueue 0 ''j'' 0 ''@cmd:true'' [] None 3, CClaim 1 1 ''w'' None 1 30000 None] empty_store))
   \<and> map lease_until (jobs (fst (heartbeat 2 ''j'' ''w'' 30000
        (run [CEnqueue 0 ''j'' 0 ''@cmd:true'' [] None 3, CClaim 1 1 ''w'' None 1 30000 None] empty_store))))
       = [Some 32]"
proof -
  let ?s = "run [CEnqueue 0 ''j'' 0 ''@cmd:true'' [] None 3, CClaim 1 1 ''w'' None 1 30000 None] empty_store"
  have pk: "jobs_pk ?s" by code_simp
  have f: "find_job ?s ''j'' =
      Some \<lparr>job_id = ''j'', lane = 0, payload = ''@cmd:true'', status = Running, holder = Some ''w'',
            lease_until = Some 31, created_at = 0, updated_at = 1, error = None, attempts = 1,
            max_attempts = 3, dedupe_key = None\<rparr>"
    by code_simp
  have js: "jobs (fst (heartbeat 2 ''j'' ''w'' 30000 ?s)) =
      [\<lparr>job_id = ''j'', lane = 0, payload = ''@cmd:true'', status = Running, holder = Some ''w'',
            lease_until = Some 32, created_at = 0, updated_at = 2, error = None, attempts = 1,
            max_attempts = 3, dedupe_key = None\<rparr>]"
    by code_simp
  from heartbeat_iff_running_holder [OF pk, of 2 "''j''" "''w''" 30000] f
  have "snd (heartbeat 2 ''j'' ''w'' 30000 ?s)" by simp
  with pk js show ?thesis by simp
qed

subsection \<open>Done and failed\<close>

text \<open>
  Claim C8, as amended. For a job the store records, \<open>mark_done\<close> and \<open>mark_failed\<close>
  change the row only when its status is running and, when a non-empty holder is given,
  the stored holder equals it; then the row becomes done (or failed, with the error cut
  to 1000 characters). Otherwise the call leaves the whole jobs table as it was: a late
  call from a worker whose lease was stolen changes nothing. An empty holder string counts
  as no holder.
\<close>

theorem mark_done_failed_guarded:
  assumes "jobs_pk s" and "find_job s jid = Some j"
  shows "(status j = Running \<and> (\<forall>w. h = Some w \<and> w \<noteq> [] \<longrightarrow> holder j = Some w) \<longrightarrow>
            find_job (mark_done now jid h s) jid = Some (j\<lparr>status := Done, updated_at := now\<rparr>)
          \<and> find_job (mark_failed now jid err h s) jid =
              Some (j\<lparr>status := Failed, error := Some (take 1000 err), updated_at := now\<rparr>))
    \<and> (status j \<noteq> Running \<or> (\<exists>w. h = Some w \<and> w \<noteq> [] \<and> holder j \<noteq> Some w) \<longrightarrow>
            jobs (mark_done now jid h s) = jobs s \<and> jobs (mark_failed now jid err h s) = jobs s)"
proof -
  let ?g = "\<lambda>k. job_id k = jid \<and> status k = Running \<and> holder_guard h k"
  have hg: "holder_guard h j = (\<forall>w. h = Some w \<and> w \<noteq> [] \<longrightarrow> holder j = Some w)"
    by (cases h) (auto simp: holder_guard_def)
  have mem: "j \<in> set (jobs s)" "job_id j = jid"
    using assms(2) by (auto dest: find_job_mem)
  have only: "k = j" if "k \<in> set (jobs s)" "job_id k = jid" for k
    using find_job_unique [OF assms(1) that(1)] that(2) assms(2) by simp
  have hit: "find_job (mark_done now jid h s) jid = Some (j\<lparr>status := Done, updated_at := now\<rparr>)
      \<and> find_job (mark_failed now jid err h s) jid =
          Some (j\<lparr>status := Failed, error := Some (take 1000 err), updated_at := now\<rparr>)"
    if "status j = Running" "holder_guard h j"
    using that assms(2) mem(2)
    by (simp add: mark_done_def mark_failed_def log_event_def find_job_def find_update_where
        done_set_def failed_set_def)
  have miss: "jobs (mark_done now jid h s) = jobs s \<and> jobs (mark_failed now jid err h s) = jobs s"
    if "\<not> (status j = Running \<and> holder_guard h j)"
  proof -
    have "\<not> ?g k" if "k \<in> set (jobs s)" for k
      using only [OF that] \<open>\<not> (status j = Running \<and> holder_guard h j)\<close> by blast
    then have "update_where ?g upd (jobs s) = jobs s" for upd
      by (rule update_where_none)
    then show ?thesis by (simp add: mark_done_def mark_failed_def log_event_def)
  qed
  from hit miss show ?thesis unfolding hg by blast
qed

text \<open>
  The claim as stated fails for the empty holder string: the job is running for \<open>w2\<close>,
  the caller supplies the empty string as holder, which is not the stored one, and the
  job is marked done (or failed) all the same.
\<close>

theorem mark_done_empty_holder_counterexample:
  "map status (jobs (run [CEnqueue 0 ''j'' 0 ''@cmd:true'' [] None 3, CClaim 1 1 ''w2'' None 1 30000 None] empty_store)) = [Running]
   \<and> map holder (jobs (run [CEnqueue 0 ''j'' 0 ''@cmd:true'' [] None 3, CClaim 1 1 ''w2'' None 1 30000 None] empty_store)) = [Some ''w2'']
   \<and> map status (jobs (mark_done 2 ''j'' (Some '''')
        (run [CEnqueue 0 ''j'' 0 ''@cmd:true'' [] None 3, CClaim 1 1 ''w2'' None 1 30000 None] empty_store))) = [Done]
   \<and> map status (jobs (mark_failed 2 ''j'' ''late'' (Some '''')
        (run [CEnqueue 0 ''j'' 0 ''@cmd:true'' [] None 3, CClaim 1 1 ''w2'' None 1 30000 None] empty_store))) = [Failed]"
  by code_simp

theorem mark_done_failed_guarded_witness:
  "jobs (mark_done 2 ''j'' (Some ''w1'')
      (run [CEnqueue 0 ''j'' 0 ''@cmd:true'' [] None 3, CClaim 1 1 ''w2'' None 1 30000 None] empty_store))
   = jobs (run [CEnqueue 0 ''j'' 0 ''@cmd:true'' [] None 3, CClaim 1 1 ''w2'' None 1 30000 None] empty_store)
   \<and> map status (jobs (mark_done 2 ''j'' (Some ''w2'')
      (run [CEnqueue 0 ''j'' 0 ''@cmd:true'' [] None 3, CClaim 1 1 ''w2'' None 1 30000 None] empty_store))) = [Done]"
proof -
  let ?s = "run [CEnqueue 0 ''j'' 0 ''@cmd:true'' [] None 3, CClaim 1 1 ''w2'' None 1 30000 None] empty_store"
  let ?j = "\<lparr>job_id = ''j'', lane = 0, payload = ''@cmd:true'', status = Running, holder = Some ''w2'',
            lease_until = Some 31, created_at = 0, updated_at = 1, error = None, attempts = 1,
            max_attempts = 3, dedupe_key = None\<rparr>"
  have pk: "jobs_pk ?s" by code_simp
  have f: "find_job ?s ''j'' = Some ?j" by code_simp
  have js: "jobs ?s = [?j]" by code_simp
  from mark_done_failed_guarded [OF pk f, of "Some ''w1''" 2 "''late''"]
  have a: "jobs (mark_done 2 ''j'' (Some ''w1'') ?s) = jobs ?s" by simp
  from mark_done_failed_guarded [OF pk f, of "Some ''w2''" 2 "''late''"]
  have "find_job (mark_done 2 ''j'' (Some ''w2'') ?s) ''j'' = Some (?j\<lparr>status := Done, updated_at := 2\<rparr>)"
    by simp
  moreover have "map job_id (jobs (mark_done 2 ''j'' (Some ''w2'') ?s)) = [''j'']" by code_simp
  ultimately have b: "map status (jobs (mark_done 2 ''j'' (Some ''w2'') ?s)) = [Done]"
    by (cases "jobs (mark_done 2 ''j'' (Some ''w2'') ?s)") (auto simp: find_job_def)
  from a b show ?thesis by simp
qed

subsection \<open>The command-safety gate\<close>

lemma allowlist_bare_not_blocked:
  "list_all (\<lambda>p. \<not> list_ex (\<lambda>b. sublist b (strip p)) CMD_BLOCKLIST) CMD_ALLOWLIST"
  by code_simp

text \<open>
  Claim C4, as amended. A command that, stripped, begins with \<open>./\<close> is permitted
  exactly when it contains no blocklist entry: without one it is permitted whatever the
  rest of the command is, and with one it is rejected, as every command that contains a
  blocklist entry is.
\<close>

theorem dot_slash_safe_unless_blocked:
  "(prefix ''./'' (strip cmd) \<longrightarrow>
      is_cmd_safe cmd = (\<not> list_ex (\<lambda>blocked. sublist blocked (strip cmd)) CMD_BLOCKLIST))
   \<and> (list_ex (\<lambda>blocked. sublist blocked (strip cmd)) CMD_BLOCKLIST \<longrightarrow> \<not> is_cmd_safe cmd)"
  by (simp add: is_cmd_safe_def Let_def)

theorem dot_slash_safe_unless_blocked_witness:
  "prefix ''./'' (strip '' ./tools/build.sh --all '') \<and> is_cmd_safe '' ./tools/build.sh --all ''
   \<and> prefix ''./'' (strip ''./x.sh && rm -rf /'') \<and> \<not> is_cmd_safe ''./x.sh && rm -rf /''"
proof -
  have a: "prefix ''./'' (strip '' ./tools/build.sh --all '')" by code_simp
  have b: "\<not> list_ex (\<lambda>blocked. sublist blocked (strip '' ./tools/build.sh --all '')) CMD_BLOCKLIST"
    by code_simp
  have c: "prefix ''./'' (strip ''./x.sh && rm -rf /'')" by code_simp
  have d: "list_ex (\<lambda>blocked. sublist blocked (strip ''./x.sh && rm -rf /'')) CMD_BLOCKLIST"
    by code_simp
  from dot_slash_safe_unless_blocked [of "'' ./tools/build.sh --all ''"] a b
  have e: "is_cmd_safe '' ./tools/build.sh --all ''" by blast
  from dot_slash_safe_unless_blocked [of "''./x.sh && rm -rf /''"] d
  have f: "\<not> is_cmd_safe ''./x.sh && rm -rf /''" by blast
  from a c e f show ?thesis by blast
qed

text \<open>
  The claim as stated fails: the blocklist is tested first, so a command that begins with
  \<open>./\<close> and contains \<open>sudo \<close> is rejected.
\<close>

theorem dot_slash_blocked_counterexample:
  "prefix ''./'' (strip ''./deploy.sh && sudo reboot'') \<and> \<not> is_cmd_safe ''./deploy.sh && sudo reboot''"
  by code_simp

text \<open>
  Claim C9. A command whose stripped form equals a stripped allowlist entry is permitted:
  the bare words \<open>echo\<close>, \<open>cat\<close>, \<open>ls\<close> pass although they do not begin with the
  spaced entry. No stripped allowlist entry contains a blocklist entry, so the proviso of
  the claim always holds.
\<close>

theorem bare_allowlist_word_safe:
  assumes "p \<in> set CMD_ALLOWLIST" and "strip cmd = strip p"
  shows "is_cmd_safe cmd"
proof -
  from allowlist_bare_not_blocked assms(1)
  have "\<not> list_ex (\<lambda>b. sublist b (strip p)) CMD_BLOCKLIST"
    by (simp add: list_all_iff)
  moreover have "list_ex (\<lambda>q. prefix q (strip cmd) \<or> strip cmd = strip q) CMD_ALLOWLIST"
    using assms by (auto simp: list_ex_iff)
  ultimately show ?thesis
    using assms(2) by (simp add: is_cmd_safe_def Let_def)
qed

theorem bare_allowlist_word_safe_witness:
  "\<not> prefix ''echo '' ''echo'' \<and> is_cmd_safe ''echo'' \<and> is_cmd_safe ''cat'' \<and> is_cmd_safe '' ls ''"
proof -
  have m: "''echo '' \<in> set CMD_ALLOWLIST" "''cat '' \<in> set CMD_ALLOWLIST" "''ls '' \<in> set CMD_ALLOWLIST"
    by (simp_all add: CMD_ALLOWLIST_def)
  have s: "strip ''echo'' = strip ''echo ''" "strip ''cat'' = strip ''cat ''" "strip '' ls '' = strip ''ls ''"
    by code_simp+
  from bare_allowlist_word_safe [OF m(1) s(1)] bare_allowlist_word_safe [OF m(2) s(2)]
    bare_allowlist_word_safe [OF m(3) s(3)]
  show ?thesis by simp
qed

subsection \<open>The plan compiler\<close>

lemma enqueue_steps_error: "enqueue_steps clock k sts s = Inl e \<Longrightarrow> \<exists>p. e = BadPayload p"
  by (induction sts arbitrary: k s) (auto simp: enqueue_job_def split: sum.splits if_splits)

lemma add_step_deps_error: "add_step_deps m st ds s = Inl e \<Longrightarrow> \<exists>a b. e = UnknownDep a b"
  by (induction ds arbitrary: s) (auto split: option.splits)

lemma add_all_deps_error: "add_all_deps m sts s = Inl e \<Longrightarrow> \<exists>a b. e = UnknownDep a b"
  by (induction sts arbitrary: s) (auto split: sum.splits dest: add_step_deps_error)

lemma enqueue_steps_deps: "enqueue_steps clock k sts s = Inr s' \<Longrightarrow> job_deps s' = job_deps s"
  by (induction sts arbitrary: k s) (auto simp: enqueue_job_def log_event_def split: sum.splits if_splits)

lemma expand_plan_other_errors_atomic:
  assumes "snd (expand_plan clock parsed db) = Inl e" and "\<not> (\<exists>a b. e = UnknownDep a b)"
  shows "fst (expand_plan clock parsed db) = db"
  using assms
  by (auto simp: expand_plan_def split: sum.splits prod.splits if_splits dest!: add_all_deps_error)

lemma expand_plan_error_keeps_deps:
  assumes "snd (expand_plan clock parsed db) = Inl e"
  shows "job_deps (fst (expand_plan clock parsed db)) = job_deps db"
  using assms
  by (auto simp: expand_plan_def split: sum.splits prod.splits if_splits dest: enqueue_steps_deps)

text \<open>
  Claim C1 fails on the code. \<open>expand_plan\<close> commits the jobs before it resolves the
  dependency references: for a plan whose only step depends on the undefined step
  \<open>ghost\<close>, the call fails with \<open>UnknownDep\<close> and the job is in the store all the same.
  Every other error leaves the store as it was (\<open>expand_plan_other_errors_atomic\<close>), and
  no failed call changes \<open>job_deps\<close> (\<open>expand_plan_error_keeps_deps\<close>). The clock
  \<open>real\<close> reads \<open>k\<close> seconds at the \<open>k\<close>-th enqueue.
\<close>

theorem expand_plan_unknown_dep_commits_jobs:
  "snd (expand_plan real
      (Inr (''p'', [\<lparr>st_id = ''a'', st_global_id = ''p::a'', st_lane = 0, st_payload = ''@cmd:true'',
                     st_deps = [''ghost''], st_dedupe_key = None\<rparr>])) empty_store)
     = Inl (UnknownDep ''a'' ''ghost'')
   \<and> jobs empty_store = []
   \<and> map job_id (jobs (fst (expand_plan real
      (Inr (''p'', [\<lparr>st_id = ''a'', st_global_id = ''p::a'', st_lane = 0, st_payload = ''@cmd:true'',
                     st_deps = [''ghost''], st_dedupe_key = None\<rparr>])) empty_store))) = [''p::a'']"
  by code_simp

lemma pk_unique:
  "jobs_pk s \<Longrightarrow> k \<in> set (jobs s) \<Longrightarrow> j \<in> set (jobs s) \<Longrightarrow> job_id k = job_id j \<Longrightarrow> k = j"
  by (simp add: jobs_pk_def distinct_map inj_on_def)

subsection \<open>Loops over keyed rows\<close>

lemma fold_keyed_miss:
  assumes "\<And>r j. key r \<noteq> job_id j \<Longrightarrow> upd r j = j"
  shows "job_id j \<notin> key ` set rs \<Longrightarrow> fold upd rs j = j"
  using assms by (induction rs) auto

lemma fold_keyed_hit:
  assumes miss: "\<And>r j. key r \<noteq> job_id j \<Longrightarrow> upd r j = j"
    and ids: "\<And>r j. job_id (upd r j) = job_id j"
  shows "distinct (map key rs) \<Longrightarrow> r \<in> set rs \<Longrightarrow> key r = job_id j \<Longrightarrow> fold upd rs j = upd r j"
proof (induction rs arbitrary: j)
  case Nil
  then show ?case by simp
next
  case (Cons a rs)
  show ?case
  proof (cases "a = r")
    case True
    from Cons.prems(1) True have "key r \<notin> key ` set rs" by simp
    with Cons.prems(3) ids have "job_id (upd r j) \<notin> key ` set rs" by simp
    from fold_keyed_miss [of key upd, OF miss this] True show ?thesis by simp
  next
    case False
    with Cons.prems have r: "r \<in> set rs" and d: "distinct (map key rs)" by auto
    from Cons.prems(1) r have "key a \<noteq> key r" by auto
    with Cons.prems(3) miss have "upd a j = j" by simp
    with Cons.IH [OF d r Cons.prems(3)] show ?thesis by simp
  qed
qed

subsection \<open>The sweep, row by row\<close>

lemma sweep_upd_id [simp]: "job_id (sweep_upd now row j) = job_id j"
  by (simp add: sweep_upd_def)

lemma requeue_row_jobs: "jobs (requeue_row now row s) = map (sweep_upd now row) (jobs s)"
  by (cases row) (simp add: requeue_row_def sweep_upd_def log_event_def update_where_def)

lemma requeue_row_deps: "job_deps (requeue_row now row s) = job_deps s"
  by (cases row) (simp add: requeue_row_def log_event_def)

lemma fold_requeue_jobs:
  "jobs (fold (requeue_row now) rows s) = map (fold (sweep_upd now) rows) (jobs s)"
  by (induction rows arbitrary: s) (simp_all add: requeue_row_jobs)

lemma fold_requeue_deps: "job_deps (fold (requeue_row now) rows s) = job_deps s"
  by (induction rows arbitrary: s) (simp_all add: requeue_row_deps)

lemma requeue_stale_jobs:
  assumes "jobs_pk s"
  shows "jobs (fst (requeue_stale now s)) = map (sweep_job now) (jobs s)"
proof -
  let ?rows = "stale_rows now s"
  have d: "distinct (map fst ?rows)"
    using assms by (simp add: stale_rows_def jobs_pk_def comp_def distinct_map_filter)
  have "fold (sweep_upd now) ?rows j = sweep_job now j" if j: "j \<in> set (jobs s)" for j
  proof (cases "is_stale now j")
    case True
    with j have "(job_id j, attempts j, max_attempts j) \<in> set ?rows"
      by (auto simp: stale_rows_def)
    from fold_keyed_hit [of fst "sweep_upd now", OF _ _ d this]
    have "fold (sweep_upd now) ?rows j = sweep_upd now (job_id j, attempts j, max_attempts j) j"
      by (simp add: sweep_upd_def)
    with True show ?thesis by (simp add: sweep_upd_def sweep_job_def)
  next
    case False
    have "job_id j \<notin> fst ` set ?rows"
    proof
      assume "job_id j \<in> fst ` set ?rows"
      then obtain k where k: "k \<in> set (jobs s)" "is_stale now k" "job_id k = job_id j"
        by (auto simp: stale_rows_def)
      from pk_unique [OF assms k(1) j k(3)] have "k = j" .
      with k(2) False show False by simp
    qed
    from fold_keyed_miss [of fst "sweep_upd now", OF _ this]
    have "fold (sweep_upd now) ?rows j = j" by (simp add: sweep_upd_def)
    with False show ?thesis by (simp add: sweep_job_def)
  qed
  then show ?thesis by (simp add: requeue_stale_def fold_requeue_jobs)
qed

lemma requeue_stale_deps: "job_deps (fst (requeue_stale now s)) = job_deps s"
  by (simp add: requeue_stale_def fold_requeue_deps)

lemma sweep_job_id [simp]: "job_id (sweep_job now j) = job_id j"
  by (simp add: sweep_job_def)

lemma requeue_stale_pk: "jobs_pk s \<Longrightarrow> jobs_pk (fst (requeue_stale now s))"
  by (simp add: jobs_pk_def requeue_stale_jobs [unfolded jobs_pk_def] comp_def)

subsection \<open>The claim loop, row by row\<close>

lemma claim_upd_id [simp]: "job_id (claim_upd now lease h arts row j) = job_id j"
  by (simp add: claim_upd_def)

lemma claim_row_eq:
  "claim_row now lease h arts row (s, acc) =
     (if check_dedupe arts (cj_dedupe_key row) \<or> (\<exists>j \<in> set (jobs s). job_id j = cj_id row \<and> status j = Queued)
      then (s\<lparr>jobs := map (claim_upd now lease h arts row) (jobs s),
              events := events s @ [claim_event h arts row]\<rparr>,
            acc @ filter (\<lambda>r. \<not> check_dedupe arts (cj_dedupe_key r)) [row])
      else (s\<lparr>jobs := map (claim_upd now lease h arts row) (jobs s)\<rparr>, acc))"
proof (cases "check_dedupe arts (cj_dedupe_key row)")
  case True
  then have "map (claim_upd now lease h arts row) (jobs s) =
      update_where (\<lambda>j. job_id j = cj_id row \<and> status j = Queued) (dedupe_set now h) (jobs s)"
    by (simp add: update_where_def claim_upd_def)
  with True show ?thesis
    by (simp add: claim_row_def claim_event_def log_event_def)
next
  case False
  then have "map (claim_upd now lease h arts row) (jobs s) =
      update_where (\<lambda>j. job_id j = cj_id row \<and> status j = Queued) (running_set now lease h) (jobs s)"
    by (simp add: update_where_def claim_upd_def)
  with False show ?thesis
    by (simp add: claim_row_def claim_event_def log_event_def rowcount_pos Let_def)
qed

lemma claim_loop:
  assumes "distinct (map cj_id rows)"
    and "\<forall>r \<in> set rows. \<exists>j \<in> set (jobs s). job_id j = cj_id r \<and> status j = Queued"
  shows "fold (claim_row now lease h arts) rows (s, acc) =
     (s\<lparr>jobs := map (fold (claim_upd now lease h arts) rows) (jobs s),
        events := events s @ map (claim_event h arts) rows\<rparr>,
      acc @ filter (\<lambda>r. \<not> check_dedupe arts (cj_dedupe_key r)) rows)"
  using assms
proof (induction rows arbitrary: s acc)
  case Nil
  then show ?case by simp
next
  case (Cons row rows)
  let ?s1 = "s\<lparr>jobs := map (claim_upd now lease h arts row) (jobs s),
                events := events s @ [claim_event h arts row]\<rparr>"
  let ?acc1 = "acc @ filter (\<lambda>r. \<not> check_dedupe arts (cj_dedupe_key r)) [row]"
  from Cons.prems(2) have "\<exists>j \<in> set (jobs s). job_id j = cj_id row \<and> status j = Queued"
    by simp
  then have step: "claim_row now lease h arts row (s, acc) = (?s1, ?acc1)"
    by (simp only: claim_row_eq if_True simp_thms)
  have d: "distinct (map cj_id rows)" using Cons.prems(1) by simp
  have q: "\<forall>r \<in> set rows. \<exists>j \<in> set (jobs ?s1). job_id j = cj_id r \<and> status j = Queued"
  proof
    fix r assume r: "r \<in> set rows"
    with Cons.prems(2) obtain j where j: "j \<in> set (jobs s)" "job_id j = cj_id r" "status j = Queued"
      by auto
    from Cons.prems(1) r have "cj_id row \<noteq> cj_id r" by auto
    with j(2) have "claim_upd now lease h arts row j = j" by (simp add: claim_upd_def)
    with j(1) have "j \<in> set (jobs ?s1)" by (force simp: image_iff)
    with j show "\<exists>j \<in> set (jobs ?s1). job_id j = cj_id r \<and> status j = Queued" by blast
  qed
  have "fold (claim_row now lease h arts) (row # rows) (s, acc) =
        fold (claim_row now lease h arts) rows (?s1, ?acc1)"
    by (simp add: step)
  also note Cons.IH [OF d q]
  finally show ?case by (simp add: comp_def)
qed

subsection \<open>The ready query\<close>

lemma sql_limit_prefix: "prefix (sql_limit n xs) xs"
  by (simp add: sql_limit_def take_is_prefix)

lemma select_ready_mem:
  assumes "j \<in> set (select_ready s la batch)"
  shows "j \<in> set (jobs s)" and "is_ready s la j"
proof -
  from sql_limit_prefix have "set (select_ready s la batch) \<subseteq> set (sort_key created_at (filter (is_ready s la) (jobs s)))"
    unfolding select_ready_def by (rule set_mono_prefix)
  with assms show "j \<in> set (jobs s)" and "is_ready s la j" by auto
qed

lemma select_ready_distinct:
  assumes "jobs_pk s"
  shows "distinct (map job_id (select_ready s la batch))"
proof -
  from assms have d: "distinct (jobs s)" and i: "inj_on job_id (set (jobs s))"
    by (simp_all add: jobs_pk_def distinct_map)
  have "distinct (select_ready s la batch)"
    using d by (simp add: select_ready_def sql_limit_def)
  moreover have "inj_on job_id (set (select_ready s la batch))"
    by (rule inj_on_subset [OF i]) (auto dest: select_ready_mem)
  ultimately show ?thesis by (simp add: distinct_map)
qed

lemma row_of_simps [simp]:
  "cj_id (row_of j) = job_id j" "cj_dedupe_key (row_of j) = dedupe_key j"
  by (simp_all add: row_of_def)

subsection \<open>Claim as one table update\<close>

lemma claim_ready_eq:
  assumes "jobs_pk s"
  shows "claim_ready t0 now h la batch lease_ms arts s =
     (fst (requeue_stale t0 s)
        \<lparr>jobs := map (claim_job now (now + real_of_int lease_ms / 1000) h arts
                   (job_id ` set (select_ready (fst (requeue_stale t0 s)) la batch)))
                 (jobs (fst (requeue_stale t0 s))),
         events := events (fst (requeue_stale t0 s)) @
                   map (claim_event h arts) (map row_of (select_ready (fst (requeue_stale t0 s)) la batch))\<rparr>,
      filter (\<lambda>r. \<not> check_dedupe arts (cj_dedupe_key r))
        (map row_of (select_ready (fst (requeue_stale t0 s)) la batch)))"
proof -
  let ?s1 = "fst (requeue_stale t0 s)"
  let ?sel = "select_ready ?s1 la batch"
  let ?rows = "map row_of ?sel"
  let ?lease = "now + real_of_int lease_ms / 1000"
  have pk1: "jobs_pk ?s1" by (rule requeue_stale_pk [OF assms])
  have d: "distinct (map cj_id ?rows)"
    using select_ready_distinct [OF pk1] by (simp add: comp_def)
  have q: "\<forall>r \<in> set ?rows. \<exists>j \<in> set (jobs ?s1). job_id j = cj_id r \<and> status j = Queued"
  proof
    fix r assume "r \<in> set ?rows"
    then obtain j where j: "j \<in> set ?sel" "r = row_of j" by auto
    from select_ready_mem [OF j(1)] j(2)
    show "\<exists>j \<in> set (jobs ?s1). job_id j = cj_id r \<and> status j = Queued"
      by (auto simp: is_ready_def)
  qed
  have upd: "fold (claim_upd now ?lease h arts) ?rows j = claim_job now ?lease h arts (job_id ` set ?sel) j"
    if j: "j \<in> set (jobs ?s1)" for j
  proof (cases "job_id j \<in> job_id ` set ?sel")
    case True
    then obtain k where k: "k \<in> set ?sel" "job_id k = job_id j" by auto
    from pk_unique [OF pk1 select_ready_mem(1) [OF k(1)] j k(2)] have "k = j" .
    with k(1) have r: "row_of j \<in> set ?rows" by simp
    have "fold (claim_upd now ?lease h arts) ?rows j = claim_upd now ?lease h arts (row_of j) j"
      by (rule fold_keyed_hit [of cj_id, OF _ _ d r]) (simp_all add: claim_upd_def)
    with True show ?thesis by (simp add: claim_upd_def claim_job_def)
  next
    case False
    then have "job_id j \<notin> cj_id ` set ?rows" by (simp add: image_image)
    then have "fold (claim_upd now ?lease h arts) ?rows j = j"
      by (rule fold_keyed_miss [of cj_id, rotated]) (simp add: claim_upd_def)
    with False show ?thesis by (simp add: claim_job_def)
  qed
  have "claim_ready t0 now h la batch lease_ms arts s = fold (claim_row now ?lease h arts) ?rows (?s1, [])"
    by (simp add: claim_ready_def Let_def)
  also note claim_loop [OF d q]
  finally show ?thesis using upd by simp
qed

subsection \<open>A running job has a holder and a lease, a queued job has neither\<close>

lemma running_inv_map:
  assumes "running_inv s" and "jobs s' = map F (jobs s)"
    and "\<And>j. running_ok j \<Longrightarrow> running_ok (F j)"
  shows "running_inv s'"
  using assms by (simp add: running_inv_def list_all_iff)

lemma running_inv_same_jobs: "running_inv s \<Longrightarrow> jobs s' = jobs s \<Longrightarrow> running_inv s'"
  by (simp add: running_inv_def)

lemma running_ok_fold:
  assumes "\<And>r j. running_ok j \<Longrightarrow> running_ok (upd r j)"
  shows "running_ok j \<Longrightarrow> running_ok (fold upd rs j)"
  using assms by (induction rs arbitrary: j) simp_all

lemma sweep_upd_running_ok: "running_ok j \<Longrightarrow> running_ok (sweep_upd now row j)"
  by (simp add: sweep_upd_def running_ok_def requeue_set_def exceeded_set_def)

lemma claim_upd_running_ok: "running_ok j \<Longrightarrow> running_ok (claim_upd now lease h arts row j)"
  by (simp add: claim_upd_def running_ok_def dedupe_set_def running_set_def)

lemma running_inv_requeue_stale: "running_inv s \<Longrightarrow> running_inv (fst (requeue_stale now s))"
  by (erule running_inv_map [where F = "fold (sweep_upd now) (stale_rows now s)"])
     (simp_all add: requeue_stale_def fold_requeue_jobs running_ok_fold sweep_upd_running_ok)

lemma claim_row_jobs:
  "jobs (fst (claim_row now lease h arts row st)) = map (claim_upd now lease h arts row) (jobs (fst st))"
  by (cases st) (simp add: claim_row_eq)

lemma fold_claim_jobs:
  "jobs (fst (fold (claim_row now lease h arts) rows st)) =
     map (fold (claim_upd now lease h arts) rows) (jobs (fst st))"
  by (induction rows arbitrary: st) (simp_all add: claim_row_jobs)

lemma running_inv_claim_ready:
  assumes "running_inv s"
  shows "running_inv (fst (claim_ready t0 now h la batch lease_ms arts s))"
  by (rule running_inv_map [OF running_inv_requeue_stale [OF assms, of t0],
        where F = "fold (claim_upd now (now + real_of_int lease_ms / 1000) h arts)
          (map row_of (select_ready (fst (requeue_stale t0 s)) la batch))"])
     (simp_all add: claim_ready_def Let_def fold_claim_jobs running_ok_fold claim_upd_running_ok)

lemma running_inv_update_where:
  assumes "running_inv s" and "jobs s' = update_where g upd (jobs s)"
    and "\<And>j. g j \<Longrightarrow> running_ok j \<Longrightarrow> running_ok (upd j)"
  shows "running_inv s'"
  by (rule running_inv_map [OF assms(1), where F = "\<lambda>j. if g j then upd j else j"])
     (simp_all add: assms update_where_def)

lemma running_inv_heartbeat: "running_inv s \<Longrightarrow> running_inv (fst (heartbeat now jid h lease_ms s))"
  by (erule running_inv_update_where [where g = "\<lambda>j. job_id j = jid \<and> status j = Running \<and> holder j = Some h"
        and upd = "heartbeat_set now lease_ms"])
     (auto simp: heartbeat_def heartbeat_set_def running_ok_def)

lemma running_inv_mark_done: "running_inv s \<Longrightarrow> running_inv (mark_done now jid h s)"
  by (erule running_inv_update_where [where g = "\<lambda>j. job_id j = jid \<and> status j = Running \<and> holder_guard h j"
        and upd = "done_set now"])
     (auto simp: mark_done_def log_event_def done_set_def running_ok_def)

lemma running_inv_mark_failed: "running_inv s \<Longrightarrow> running_inv (mark_failed now jid err h s)"
  by (erule running_inv_update_where [where g = "\<lambda>j. job_id j = jid \<and> status j = Running \<and> holder_guard h j"
        and upd = "failed_set now err"])
     (auto simp: mark_failed_def log_event_def failed_set_def running_ok_def)

lemma running_inv_enqueue_job:
  assumes "running_inv s" and "enqueue_job now jid la pl dk ma s = Inr s'"
  shows "running_inv s'"
  using assms
  by (auto simp: enqueue_job_def log_event_def insert_job_def running_inv_def running_ok_def
      split: if_splits)

lemma add_dep_jobs [simp]: "jobs (add_dep jid d s) = jobs s"
  by (simp add: add_dep_def)

lemma fold_add_dep_jobs [simp]: "jobs (fold (add_dep jid) ds s) = jobs s"
  by (induction ds arbitrary: s) simp_all

lemma post_enqueue_split:
  assumes "post_enqueue now jid la pl deps dk ma s = Inr s'"
  obtains s1 where "enqueue_job now jid la pl dk ma s = Inr s1" and "jobs s' = jobs s1"
  using assms by (auto simp: post_enqueue_def split: sum.splits)

lemma running_inv_post_enqueue:
  assumes "running_inv s" and "post_enqueue now jid la pl deps dk ma s = Inr s'"
  shows "running_inv s'"
proof -
  from assms(2) obtain s1 where e: "enqueue_job now jid la pl dk ma s = Inr s1"
    and s': "jobs s' = jobs s1"
    by (rule post_enqueue_split)
  from running_inv_enqueue_job [OF assms(1) e] s' show ?thesis
    by (rule running_inv_same_jobs)
qed

lemma running_inv_enqueue_steps:
  "running_inv s \<Longrightarrow> enqueue_steps clock k sts s = Inr s' \<Longrightarrow> running_inv s'"
  by (induction sts arbitrary: k s) (auto split: sum.splits dest: running_inv_enqueue_job)

lemma add_step_deps_jobs: "add_step_deps m st ds s = Inr s' \<Longrightarrow> jobs s' = jobs s"
  by (induction ds arbitrary: s) (auto split: option.splits)

lemma add_all_deps_jobs: "add_all_deps m sts s = Inr s' \<Longrightarrow> jobs s' = jobs s"
  by (induction sts arbitrary: s) (auto split: sum.splits dest: add_step_deps_jobs)

lemma running_inv_expand_plan: "running_inv s \<Longrightarrow> running_inv (fst (expand_plan clock parsed s))"
  by (auto simp: expand_plan_def split: sum.splits prod.splits
      dest: running_inv_enqueue_steps add_all_deps_jobs intro: running_inv_same_jobs)

lemma running_inv_apply_call: "running_inv s \<Longrightarrow> running_inv (apply_call c s)"
proof (cases c)
  case (CEnqueue now jid la pl deps dk ma)
  assume "running_inv s"
  with CEnqueue show ?thesis
    by (auto split: sum.splits dest: running_inv_post_enqueue)
qed (simp_all add: running_inv_claim_ready running_inv_heartbeat running_inv_mark_done
      running_inv_mark_failed running_inv_requeue_stale running_inv_expand_plan)

lemma running_inv_run: "running_inv s \<Longrightarrow> running_inv (run cs s)"
  unfolding run_def by (induction cs arbitrary: s) (simp_all add: running_inv_apply_call)

text \<open>
  Claim C2, as amended. Call a row well-leased when, being running, it has a holder and
  a lease and, being queued, it has neither. If every row of a store is well-leased, so
  is every row after any one operation of the scheduler (enqueue, claim, heartbeat,
  mark-done, mark-failed, the sweep, plan expansion). Hence, in every store reached from
  the empty store: a running row has both columns set, a queued row has both null, and a
  row with both columns set is running, done or failed; on the rows that are queued or
  running, the status is running exactly when both columns are set.
\<close>

theorem running_implies_holder_lease:
  "((\<forall>j \<in> set (jobs s).
        (status j = Running \<longrightarrow> holder j \<noteq> None \<and> lease_until j \<noteq> None)
      \<and> (status j = Queued \<longrightarrow> holder j = None \<and> lease_until j = None)) \<longrightarrow>
    (\<forall>j \<in> set (jobs (apply_call c s)).
        (status j = Running \<longrightarrow> holder j \<noteq> None \<and> lease_until j \<noteq> None)
      \<and> (status j = Queued \<longrightarrow> holder j = None \<and> lease_until j = None)))
   \<and> (\<forall>j \<in> set (jobs (run cs empty_store)).
        (status j = Running \<longrightarrow> holder j \<noteq> None \<and> lease_until j \<noteq> None)
      \<and> (status j = Queued \<longrightarrow> holder j = None \<and> lease_until j = None)
      \<and> (holder j \<noteq> None \<and> lease_until j \<noteq> None \<longrightarrow>
            status j = Running \<or> status j = Done \<or> status j = Failed)
      \<and> (status j = Queued \<or> status j = Running \<longrightarrow>
            (status j = Running) = (holder j \<noteq> None \<and> lease_until j \<noteq> None)))"
proof -
  have step: "running_inv s \<longrightarrow> running_inv (apply_call c s)"
    by (simp add: running_inv_apply_call)
  have "running_inv empty_store" by (simp add: running_inv_def empty_store_def)
  then have "running_inv (run cs empty_store)" by (rule running_inv_run)
  then have reach: "\<forall>j \<in> set (jobs (run cs empty_store)). running_ok j"
    by (simp add: running_inv_def list_all_iff)
  have all: "(status j = Running \<longrightarrow> holder j \<noteq> None \<and> lease_until j \<noteq> None)
      \<and> (status j = Queued \<longrightarrow> holder j = None \<and> lease_until j = None)
      \<and> (holder j \<noteq> None \<and> lease_until j \<noteq> None \<longrightarrow>
            status j = Running \<or> status j = Done \<or> status j = Failed)
      \<and> (status j = Queued \<or> status j = Running \<longrightarrow>
            (status j = Running) = (holder j \<noteq> None \<and> lease_until j \<noteq> None))"
    if "running_ok j" for j
    using that by (cases "status j") (auto simp: running_ok_def)
  have r: "\<forall>j \<in> set (jobs (run cs empty_store)).
        (status j = Running \<longrightarrow> holder j \<noteq> None \<and> lease_until j \<noteq> None)
      \<and> (status j = Queued \<longrightarrow> holder j = None \<and> lease_until j = None)
      \<and> (holder j \<noteq> None \<and> lease_until j \<noteq> None \<longrightarrow>
            status j = Running \<or> status j = Done \<or> status j = Failed)
      \<and> (status j = Queued \<or> status j = Running \<longrightarrow>
            (status j = Running) = (holder j \<noteq> None \<and> lease_until j \<noteq> None))"
  proof
    fix j assume "j \<in> set (jobs (run cs empty_store))"
    with reach have "running_ok j" by (rule bspec)
    then show "(status j = Running \<longrightarrow> holder j \<noteq> None \<and> lease_until j \<noteq> None)
      \<and> (status j = Queued \<longrightarrow> holder j = None \<and> lease_until j = None)
      \<and> (holder j \<noteq> None \<and> lease_until j \<noteq> None \<longrightarrow>
            status j = Running \<or> status j = Done \<or> status j = Failed)
      \<and> (status j = Queued \<or> status j = Running \<longrightarrow>
            (status j = Running) = (holder j \<noteq> None \<and> lease_until j \<noteq> None))"
      by (rule all)
  qed
  have s: "(\<forall>j \<in> set (jobs s).
        (status j = Running \<longrightarrow> holder j \<noteq> None \<and> lease_until j \<noteq> None)
      \<and> (status j = Queued \<longrightarrow> holder j = None \<and> lease_until j = None)) \<longrightarrow>
    (\<forall>j \<in> set (jobs (apply_call c s)).
        (status j = Running \<longrightarrow> holder j \<noteq> None \<and> lease_until j \<noteq> None)
      \<and> (status j = Queued \<longrightarrow> holder j = None \<and> lease_until j = None))"
    by (rule step [unfolded running_inv_def running_ok_def list_all_iff])
  from s r show ?thesis by (rule conjI)
qed

theorem running_implies_holder_lease_witness:
  "map status (jobs (run [CEnqueue 0 ''j'' 0 ''@cmd:true'' [] None 3, CEnqueue 1 ''k'' 0 ''@cmd:true'' [] None 3,
        CClaim 2 2 ''w'' None 1 30000 None] empty_store)) = [Running, Queued]
   \<and> list_all (\<lambda>j. (status j = Running) = (holder j \<noteq> None \<and> lease_until j \<noteq> None))
        (jobs (run [CEnqueue 0 ''j'' 0 ''@cmd:true'' [] None 3, CEnqueue 1 ''k'' 0 ''@cmd:true'' [] None 3,
           CClaim 2 2 ''w'' None 1 30000 None] empty_store))
   \<and> list_all (\<lambda>j. (status j = Running) = (holder j \<noteq> None \<and> lease_until j \<noteq> None))
        (jobs (apply_call (CHeartbeat 3 ''j'' ''w'' 30000)
           (run [CEnqueue 0 ''j'' 0 ''@cmd:true'' [] None 3, CEnqueue 1 ''k'' 0 ''@cmd:true'' [] None 3,
              CClaim 2 2 ''w'' None 1 30000 None] empty_store)))"
proof -
  let ?cs = "[CEnqueue 0 ''j'' 0 ''@cmd:true'' [] None 3, CEnqueue 1 ''k'' 0 ''@cmd:true'' [] None 3,
              CClaim 2 2 ''w'' None 1 30000 None]"
  let ?s = "run ?cs empty_store"
  let ?s' = "apply_call (CHeartbeat 3 ''j'' ''w'' 30000) ?s"
  have st: "map status (jobs ?s) = [Running, Queued]" by code_simp
  have st': "map status (jobs ?s') = [Running, Queued]" by code_simp
  have q: "\<forall>j \<in> set (jobs ?s). status j = Queued \<or> status j = Running"
  proof
    fix j assume "j \<in> set (jobs ?s)"
    then have "status j \<in> set (map status (jobs ?s))" by simp
    then show "status j = Queued \<or> status j = Running" unfolding st by auto
  qed
  have q': "\<forall>j \<in> set (jobs ?s'). status j = Queued \<or> status j = Running"
  proof
    fix j assume "j \<in> set (jobs ?s')"
    then have "status j \<in> set (map status (jobs ?s'))" by simp
    then show "status j = Queued \<or> status j = Running" unfolding st' by auto
  qed
  note inst = running_implies_holder_lease [of ?s "CHeartbeat 3 ''j'' ''w'' 30000" ?cs]
  from inst q have a: "\<forall>j \<in> set (jobs ?s).
      (status j = Running) = (holder j \<noteq> None \<and> lease_until j \<noteq> None)"
    by blast
  from inst have "\<forall>j \<in> set (jobs ?s').
        (status j = Running \<longrightarrow> holder j \<noteq> None \<and> lease_until j \<noteq> None)
      \<and> (status j = Queued \<longrightarrow> holder j = None \<and> lease_until j = None)"
    by blast
  with q' have b: "\<forall>j \<in> set (jobs ?s').
      (status j = Running) = (holder j \<noteq> None \<and> lease_until j \<noteq> None)"
    by (metis status.distinct(1))
  from st a b show ?thesis by (simp add: list_all_iff)
qed

text \<open>
  The biconditional of the claim fails on a terminal row: \<open>mark_done\<close> sets the status
  and leaves \<open>holder\<close> and \<open>lease_until\<close> as they were, so after enqueue, claim and
  mark-done the job is done with both columns set.
\<close>

theorem running_iff_counterexample:
  "map status (jobs (run [CEnqueue 0 ''j'' 0 ''@cmd:true'' [] None 3, CClaim 1 1 ''w'' None 1 30000 None,
       CMarkDone 2 ''j'' (Some ''w'')] empty_store)) = [Done]
   \<and> map holder (jobs (run [CEnqueue 0 ''j'' 0 ''@cmd:true'' [] None 3, CClaim 1 1 ''w'' None 1 30000 None,
       CMarkDone 2 ''j'' (Some ''w'')] empty_store)) = [Some ''w'']
   \<and> map lease_until (jobs (run [CEnqueue 0 ''j'' 0 ''@cmd:true'' [] None 3, CClaim 1 1 ''w'' None 1 30000 None,
       CMarkDone 2 ''j'' (Some ''w'')] empty_store)) = [Some 31]"
  by code_simp

subsection \<open>Attempts stay within the cap\<close>

lemma store_inv_map:
  assumes "store_inv s" and "jobs s' = map F (jobs s)"
    and "\<And>j. job_id (F j) = job_id j"
    and "\<And>j. attempts_ok j \<Longrightarrow> attempts_ok (F j)"
  shows "store_inv s'"
  using assms by (simp add: store_inv_def jobs_pk_def comp_def list_all_iff)

lemma store_inv_same_jobs: "store_inv s \<Longrightarrow> jobs s' = jobs s \<Longrightarrow> store_inv s'"
  by (simp add: store_inv_def jobs_pk_def)

lemma sweep_job_ok: "attempts_ok j \<Longrightarrow> attempts_ok (sweep_job now j)"
  by (auto simp: sweep_job_def attempts_ok_def requeue_set_def exceeded_set_def)

lemma claim_job_id [simp]: "job_id (claim_job now lease h arts ids j) = job_id j"
  by (simp add: claim_job_def)

lemma claim_job_ok: "attempts_ok j \<Longrightarrow> attempts_ok (claim_job now lease h arts ids j)"
  by (auto simp: claim_job_def attempts_ok_def dedupe_set_def running_set_def)

lemma store_inv_requeue_stale: "store_inv s \<Longrightarrow> store_inv (fst (requeue_stale now s))"
  by (rule store_inv_map [where F = "sweep_job now"])
     (simp_all add: store_inv_def requeue_stale_jobs sweep_job_ok)

lemma store_inv_claim_ready:
  assumes "store_inv s"
  shows "store_inv (fst (claim_ready t0 now h la batch lease_ms arts s))"
proof -
  from assms have pk: "jobs_pk s" by (simp add: store_inv_def)
  show ?thesis
    by (rule store_inv_map [OF store_inv_requeue_stale [OF assms, of t0],
          where F = "claim_job now (now + real_of_int lease_ms / 1000) h arts
            (job_id ` set (select_ready (fst (requeue_stale t0 s)) la batch))"])
       (simp_all add: claim_ready_eq [OF pk] claim_job_ok)
qed

lemma store_inv_update_where:
  assumes "store_inv s" and "jobs s' = update_where g upd (jobs s)"
    and "\<And>j. job_id (upd j) = job_id j"
    and "\<And>j. g j \<Longrightarrow> attempts_ok j \<Longrightarrow> attempts_ok (upd j)"
  shows "store_inv s'"
  by (rule store_inv_map [OF assms(1), where F = "\<lambda>j. if g j then upd j else j"])
     (simp_all add: assms update_where_def)

lemma store_inv_heartbeat: "store_inv s \<Longrightarrow> store_inv (fst (heartbeat now jid h lease_ms s))"
  by (erule store_inv_update_where [where g = "\<lambda>j. job_id j = jid \<and> status j = Running \<and> holder j = Some h"
        and upd = "heartbeat_set now lease_ms"])
     (auto simp: heartbeat_def heartbeat_set_def attempts_ok_def)

lemma store_inv_mark_done: "store_inv s \<Longrightarrow> store_inv (mark_done now jid h s)"
  by (erule store_inv_update_where [where g = "\<lambda>j. job_id j = jid \<and> status j = Running \<and> holder_guard h j"
        and upd = "done_set now"])
     (auto simp: mark_done_def log_event_def done_set_def attempts_ok_def)

lemma store_inv_mark_failed: "store_inv s \<Longrightarrow> store_inv (mark_failed now jid err h s)"
  by (erule store_inv_update_where [where g = "\<lambda>j. job_id j = jid \<and> status j = Running \<and> holder_guard h j"
        and upd = "failed_set now err"])
     (auto simp: mark_failed_def log_event_def failed_set_def attempts_ok_def)

lemma store_inv_enqueue_job:
  assumes "store_inv s" and "enqueue_job now jid la pl dk ma s = Inr s'"
  shows "store_inv s'"
  using assms
  by (auto simp: enqueue_job_def log_event_def insert_job_def store_inv_def jobs_pk_def
      list_ex_iff attempts_ok_def split: if_splits)

lemma store_inv_post_enqueue:
  assumes "store_inv s" and "post_enqueue now jid la pl deps dk ma s = Inr s'"
  shows "store_inv s'"
proof -
  from assms(2) obtain s1 where e: "enqueue_job now jid la pl dk ma s = Inr s1"
    and s': "jobs s' = jobs s1"
    by (rule post_enqueue_split)
  from store_inv_enqueue_job [OF assms(1) e] s' show ?thesis
    by (rule store_inv_same_jobs)
qed

lemma store_inv_enqueue_steps:
  "store_inv s \<Longrightarrow> enqueue_steps clock k sts s = Inr s' \<Longrightarrow> store_inv s'"
  by (induction sts arbitrary: k s) (auto split: sum.splits dest: store_inv_enqueue_job)

lemma store_inv_expand_plan: "store_inv s \<Longrightarrow> store_inv (fst (expand_plan clock parsed s))"
  by (auto simp: expand_plan_def split: sum.splits prod.splits
      dest: store_inv_enqueue_steps add_all_deps_jobs intro: store_inv_same_jobs)

lemma store_inv_apply_call: "store_inv s \<Longrightarrow> store_inv (apply_call c s)"
proof (cases c)
  case (CEnqueue now jid la pl deps dk ma)
  assume "store_inv s"
  with CEnqueue show ?thesis
    by (auto split: sum.splits dest: store_inv_post_enqueue)
qed (simp_all add: store_inv_claim_ready store_inv_heartbeat store_inv_mark_done
      store_inv_mark_failed store_inv_requeue_stale store_inv_expand_plan)

lemma store_inv_empty: "store_inv empty_store"
  by (simp add: store_inv_def jobs_pk_def empty_store_def)

lemma store_inv_run: "store_inv s \<Longrightarrow> store_inv (run cs s)"
  unfolding run_def by (induction cs arbitrary: s) (simp_all add: store_inv_apply_call)

lemma reachable_inv: "store_inv (run cs empty_store)"
  by (rule store_inv_run [OF store_inv_empty])

lemma reachable_pk: "jobs_pk (run cs empty_store)"
  using reachable_inv [of cs] by (simp add: store_inv_def)

lemma find_job_map:
  assumes "find_job s jid = Some j" and "jobs s' = map F (jobs s)" and "\<And>x. job_id (F x) = job_id x"
  shows "find_job s' jid = Some (F j)"
  using assms by (simp add: find_job_def find_map_ids)

text \<open>
  Claim C5, as amended. Call a row within its cap when, its \<open>max_attempts\<close> being at least
  1, \<open>attempts \<le> max_attempts\<close>, and \<open>attempts < max_attempts\<close> while it is queued. If the
  store respects the primary key and every row is within its cap, the same holds after
  any one operation of the scheduler; hence in every reachable store a job whose
  \<open>max_attempts\<close> is at least 1 has \<open>attempts \<le> max_attempts\<close>. The sweep turns a running
  job whose lease ended before \<open>now\<close> into a queued job with holder and lease cleared and the
  attempts as they were when \<open>attempts < max_attempts\<close>, and otherwise into a failed job
  with the error \<open>max attempts exceeded\<close>.
\<close>

theorem attempts_bounded_and_sweep:
  "(store_inv s \<longrightarrow> store_inv (apply_call c s))
   \<and> (j \<in> set (jobs (run cs empty_store)) \<longrightarrow>
        (1 \<le> max_attempts j \<longrightarrow> attempts j \<le> max_attempts j)
      \<and> (status j = Running \<and> (\<exists>l. lease_until j = Some l \<and> l < now) \<longrightarrow>
           find_job (fst (requeue_stale now (run cs empty_store))) (job_id j) =
             Some (if attempts j < max_attempts j
                   then j\<lparr>status := Queued, holder := None, lease_until := None, updated_at := now\<rparr>
                   else j\<lparr>status := Failed, error := Some ''max attempts exceeded'', updated_at := now\<rparr>)))"
proof -
  let ?s = "run cs empty_store"
  have step: "store_inv s \<longrightarrow> store_inv (apply_call c s)"
    by (simp add: store_inv_apply_call)
  have rest: "(1 \<le> max_attempts j \<longrightarrow> attempts j \<le> max_attempts j)
      \<and> (status j = Running \<and> (\<exists>l. lease_until j = Some l \<and> l < now) \<longrightarrow>
           find_job (fst (requeue_stale now ?s)) (job_id j) =
             Some (if attempts j < max_attempts j
                   then j\<lparr>status := Queued, holder := None, lease_until := None, updated_at := now\<rparr>
                   else j\<lparr>status := Failed, error := Some ''max attempts exceeded'', updated_at := now\<rparr>))"
    if mem: "j \<in> set (jobs ?s)"
  proof -
    from reachable_inv [of cs] have pk: "jobs_pk ?s" and ok: "attempts_ok j"
      using mem by (simp_all add: store_inv_def list_all_iff)
    from ok have a: "1 \<le> max_attempts j \<longrightarrow> attempts j \<le> max_attempts j"
      by (simp add: attempts_ok_def)
    have b: "find_job (fst (requeue_stale now ?s)) (job_id j) =
        Some (if attempts j < max_attempts j
              then j\<lparr>status := Queued, holder := None, lease_until := None, updated_at := now\<rparr>
              else j\<lparr>status := Failed, error := Some ''max attempts exceeded'', updated_at := now\<rparr>)"
      if "status j = Running \<and> (\<exists>l. lease_until j = Some l \<and> l < now)"
    proof -
      from that have stale: "is_stale now j" by (auto simp: is_stale_def)
      from find_job_map [OF find_job_unique [OF pk mem] requeue_stale_jobs [OF pk, of now]]
      have "find_job (fst (requeue_stale now ?s)) (job_id j) = Some (sweep_job now j)" by simp
      with stale show ?thesis by (simp add: sweep_job_def requeue_set_def exceeded_set_def)
    qed
    from a b show ?thesis by blast
  qed
  from step rest show ?thesis by blast
qed

text \<open>
  The bound of the claim fails for a job enqueued with \<open>max_attempts = 0\<close>, which
  enqueue accepts: the claim update counts the attempt with no test of the cap.
\<close>

theorem attempts_exceed_zero_cap_counterexample:
  "map attempts (jobs (run [CEnqueue 0 ''j'' 0 ''@cmd:true'' [] None 0, CClaim 1 1 ''w'' None 1 30000 None] empty_store)) = [1]
   \<and> map max_attempts (jobs (run [CEnqueue 0 ''j'' 0 ''@cmd:true'' [] None 0, CClaim 1 1 ''w'' None 1 30000 None] empty_store)) = [0]"
  by code_simp

theorem attempts_bounded_and_sweep_witness:
  "map attempts (jobs (run [CEnqueue 0 ''j'' 0 ''@cmd:true'' [] None 1, CClaim 1 1 ''w'' None 1 30000 None] empty_store)) = [1]
   \<and> map status (jobs (fst (requeue_stale 40
        (run [CEnqueue 0 ''j'' 0 ''@cmd:true'' [] None 1, CClaim 1 1 ''w'' None 1 30000 None] empty_store)))) = [Failed]
   \<and> map status (jobs (fst (requeue_stale 40
        (run [CEnqueue 0 ''j'' 0 ''@cmd:true'' [] None 2, CClaim 1 1 ''w'' None 1 30000 None] empty_store)))) = [Queued]
   \<and> store_inv (apply_call (CRequeueStale 40)
        (run [CEnqueue 0 ''j'' 0 ''@cmd:true'' [] None 2, CClaim 1 1 ''w'' None 1 30000 None] empty_store))"
proof -
  let ?c1 = "[CEnqueue 0 ''j'' 0 ''@cmd:true'' [] None 1, CClaim 1 1 ''w'' None 1 30000 None]"
  let ?c2 = "[CEnqueue 0 ''j'' 0 ''@cmd:true'' [] None 2, CClaim 1 1 ''w'' None 1 30000 None]"
  let ?j1 = "\<lparr>job_id = ''j'', lane = 0, payload = ''@cmd:true'', status = Running, holder = Some ''w'',
            lease_until = Some 31, created_at = 0, updated_at = 1, error = None, attempts = 1,
            max_attempts = 1, dedupe_key = None\<rparr>"
  let ?j2 = "\<lparr>job_id = ''j'', lane = 0, payload = ''@cmd:true'', status = Running, holder = Some ''w'',
            lease_until = Some 31, created_at = 0, updated_at = 1, error = None, attempts = 1,
            max_attempts = 2, dedupe_key = None\<rparr>"
  have j1: "jobs (run ?c1 empty_store) = [?j1]" by code_simp
  have j2: "jobs (run ?c2 empty_store) = [?j2]" by code_simp
  have n1: "map job_id (jobs (fst (requeue_stale 40 (run ?c1 empty_store)))) = [''j'']" by code_simp
  have n2: "map job_id (jobs (fst (requeue_stale 40 (run ?c2 empty_store)))) = [''j'']" by code_simp
  have i2: "store_inv (run ?c2 empty_store)" by code_simp
  from attempts_bounded_and_sweep [of "run ?c2 empty_store" "CRequeueStale 40" ?j1 ?c1 40] j1 i2
  have inv: "store_inv (apply_call (CRequeueStale 40) (run ?c2 empty_store))"
    and "find_job (fst (requeue_stale 40 (run ?c1 empty_store))) ''j'' =
      Some (?j1\<lparr>status := Failed, error := Some ''max attempts exceeded'', updated_at := 40\<rparr>)"
    by simp_all
  with n1 have a: "map status (jobs (fst (requeue_stale 40 (run ?c1 empty_store)))) = [Failed]"
    by (cases "jobs (fst (requeue_stale 40 (run ?c1 empty_store)))") (auto simp: find_job_def)
  from attempts_bounded_and_sweep [of "run ?c2 empty_store" "CRequeueStale 40" ?j2 ?c2 40] j2
  have "find_job (fst (requeue_stale 40 (run ?c2 empty_store))) ''j'' =
      Some (?j2\<lparr>status := Queued, holder := None, lease_until := None, updated_at := 40\<rparr>)"
    by simp
  with n2 have b: "map status (jobs (fst (requeue_stale 40 (run ?c2 empty_store)))) = [Queued]"
    by (cases "jobs (fst (requeue_stale 40 (run ?c2 empty_store)))") (auto simp: find_job_def)
  from j1 a b inv show ?thesis by simp
qed

subsection \<open>Order of the ready selection\<close>

text \<open>
  Claim C3, as amended. The ready query returns its rows in non-decreasing order of
  \<open>created_at\<close>; the ready rows of one \<open>created_at\<close> come in the order of the jobs
  table, an initial part of them when the limit cuts; a ready row left out is no older
  than any selected row; and claim returns the selected rows that are not dedupe-skipped,
  in the order of the selection. No id enters the order.
\<close>

theorem select_ready_fifo_stable:
  "sorted (map created_at (select_ready s la batch))
   \<and> prefix (filter (\<lambda>j. created_at j = t) (select_ready s la batch))
        (filter (\<lambda>j. created_at j = t) (filter (is_ready s la) (jobs s)))
   \<and> (k \<in> set (select_ready s la batch) \<and> j \<in> set (jobs s) \<and> is_ready s la j
          \<and> j \<notin> set (select_ready s la batch) \<longrightarrow> created_at k \<le> created_at j)
   \<and> (jobs_pk s \<longrightarrow>
        snd (claim_ready t0 now h la batch lease_ms arts s) =
          filter (\<lambda>r. \<not> check_dedupe arts (cj_dedupe_key r))
            (map row_of (select_ready (fst (requeue_stale t0 s)) la batch)))"
proof -
  let ?R = "filter (is_ready s la) (jobs s)"
  let ?S = "sort_key created_at ?R"
  have p: "prefix (select_ready s la batch) ?S"
    unfolding select_ready_def by (rule sql_limit_prefix)
  then obtain zs where zs: "?S = select_ready s la batch @ zs" by (auto simp: prefix_def)
  have "sorted (map created_at ?S)" by simp
  then have a: "sorted (map created_at (select_ready s la batch))"
    unfolding zs by (simp add: sorted_append)
  from p have "prefix (filter (\<lambda>j. created_at j = t) (select_ready s la batch))
      (filter (\<lambda>j. created_at j = t) ?S)"
    by (rule filter_mono_prefix)
  then have b: "prefix (filter (\<lambda>j. created_at j = t) (select_ready s la batch))
      (filter (\<lambda>j. created_at j = t) ?R)"
    by (simp only: sort_key_stable)
  have c: "created_at k \<le> created_at j"
    if "k \<in> set (select_ready s la batch) \<and> j \<in> set (jobs s) \<and> is_ready s la j
          \<and> j \<notin> set (select_ready s la batch)"
  proof -
    from that have "j \<in> set ?S" by simp
    with that have "j \<in> set zs" unfolding zs by simp
    moreover from \<open>sorted (map created_at ?S)\<close>
    have "\<forall>x \<in> set (select_ready s la batch). \<forall>y \<in> set zs. created_at x \<le> created_at y"
      unfolding zs by (simp add: sorted_append)
    ultimately show ?thesis using that by blast
  qed
  from a b c show ?thesis by (simp add: claim_ready_eq)
qed

theorem select_ready_fifo_stable_witness:
  "jobs_pk (run [CEnqueue 5 ''b'' 0 ''@cmd:true'' [] None 3, CEnqueue 5 ''a'' 0 ''@cmd:true'' [] None 3,
                 CEnqueue 4 ''c'' 0 ''@cmd:true'' [] None 3] empty_store)
   \<and> map cj_id (snd (claim_ready 6 6 ''w'' None 3 30000 None
        (run [CEnqueue 5 ''b'' 0 ''@cmd:true'' [] None 3, CEnqueue 5 ''a'' 0 ''@cmd:true'' [] None 3,
              CEnqueue 4 ''c'' 0 ''@cmd:true'' [] None 3] empty_store))) = [''c'', ''b'', ''a'']"
proof -
  let ?s = "run [CEnqueue 5 ''b'' 0 ''@cmd:true'' [] None 3, CEnqueue 5 ''a'' 0 ''@cmd:true'' [] None 3,
                 CEnqueue 4 ''c'' 0 ''@cmd:true'' [] None 3] empty_store"
  have pk: "jobs_pk ?s" by code_simp
  have "map cj_id (filter (\<lambda>r. \<not> check_dedupe None (cj_dedupe_key r))
      (map row_of (select_ready (fst (requeue_stale 6 ?s)) None 3))) = [''c'', ''b'', ''a'']"
    by code_simp
  with select_ready_fifo_stable [of ?s None 3 0 _ _ 6 6 "''w''" 30000 None] pk
  show ?thesis by simp
qed

text \<open>
  The tie-break of the claim fails: \<open>b\<close> and \<open>a\<close> are enqueued in this order at the
  same time, both are ready, and claim returns \<open>b\<close> before \<open>a\<close> (with a batch of 1,
  \<open>b\<close> alone), although \<open>a\<close> is the smaller id.
\<close>

theorem claim_tie_order_counterexample:
  "map job_id (jobs (run [CEnqueue 5 ''b'' 0 ''@cmd:true'' [] None 3,
                          CEnqueue 5 ''a'' 0 ''@cmd:true'' [] None 3] empty_store)) = [''b'', ''a'']
   \<and> map created_at (jobs (run [CEnqueue 5 ''b'' 0 ''@cmd:true'' [] None 3,
                          CEnqueue 5 ''a'' 0 ''@cmd:true'' [] None 3] empty_store)) = [5, 5]
   \<and> (''a'' :: string) < ''b''
   \<and> map cj_id (snd (claim_ready 6 6 ''w'' None 2 30000 None
        (run [CEnqueue 5 ''b'' 0 ''@cmd:true'' [] None 3,
              CEnqueue 5 ''a'' 0 ''@cmd:true'' [] None 3] empty_store))) = [''b'', ''a'']
   \<and> map cj_id (snd (claim_ready 6 6 ''w'' None 1 30000 None
        (run [CEnqueue 5 ''b'' 0 ''@cmd:true'' [] None 3,
              CEnqueue 5 ''a'' 0 ''@cmd:true'' [] None 3] empty_store))) = [''b'']"
  by code_simp

subsection \<open>Dedupe\<close>

lemma stem_nonempty: "f \<noteq> [] \<Longrightarrow> stem f \<noteq> []"
  by (auto simp: stem_def split: option.splits)

lemma check_dedupe_hit:
  assumes "f \<in> set names" and "f \<noteq> []"
  shows "check_dedupe (Some names) (Some (stem f))"
  using assms by (auto simp: check_dedupe_def stem_nonempty list_ex_iff)

lemma check_dedupe_miss: "dk = None \<or> arts = None \<Longrightarrow> \<not> check_dedupe arts dk"
  by (auto simp: check_dedupe_def split: option.splits)

text \<open>
  Claim C6. Let \<open>j\<close> be a row the ready query of a claim selects (after the sweep), in a
  store that respects the primary key. If its \<open>dedupe_key\<close> is \<open>k\<close> and an entry of the
  artifact directory has the stem \<open>k\<close>, the claim leaves the row done with the holder
  stamped and every other column but \<open>updated_at\<close> as it was (so \<open>attempts\<close> is
  unchanged, 0 for a job never claimed), appends a \<open>dedupe_skip\<close> event for it, and does
  not return it. If the key is unset or the directory does not exist, the row is claimed:
  it is running, counts one more attempt, and is returned.
\<close>

theorem dedupe_short_circuit:
  assumes "jobs_pk s"
    and "j \<in> set (select_ready (fst (requeue_stale t0 s)) la batch)"
  shows "(dedupe_key j = Some k \<and> arts = Some names \<and> f \<in> set names \<and> f \<noteq> [] \<and> stem f = k \<longrightarrow>
            find_job (fst (claim_ready t0 now h la batch lease_ms arts s)) (job_id j) =
              Some (j\<lparr>status := Done, holder := Some h, updated_at := now\<rparr>)
          \<and> (\<exists>evs. events (fst (claim_ready t0 now h la batch lease_ms arts s)) =
                      events (fst (requeue_stale t0 s)) @ evs
                \<and> \<lparr>ev_job = job_id j, ev_kind = DedupeSkip,
                     ev_msg = take 500 (''artifact exists for '' @ k)\<rparr> \<in> set evs)
          \<and> job_id j \<notin> cj_id ` set (snd (claim_ready t0 now h la batch lease_ms arts s)))
    \<and> (dedupe_key j = None \<or> arts = None \<longrightarrow>
            find_job (fst (claim_ready t0 now h la batch lease_ms arts s)) (job_id j) =
              Some (j\<lparr>status := Running, holder := Some h,
                      lease_until := Some (now + real_of_int lease_ms / 1000),
                      attempts := attempts j + 1, updated_at := now\<rparr>)
          \<and> row_of j \<in> set (snd (claim_ready t0 now h la batch lease_ms arts s)))"
proof -
  let ?s1 = "fst (requeue_stale t0 s)"
  let ?sel = "select_ready ?s1 la batch"
  let ?lease = "now + real_of_int lease_ms / 1000"
  let ?res = "claim_ready t0 now h la batch lease_ms arts s"
  note eq = claim_ready_eq [OF assms(1), of t0 now h la batch lease_ms arts]
  have pk1: "jobs_pk ?s1" by (rule requeue_stale_pk [OF assms(1)])
  have mem: "j \<in> set (jobs ?s1)" and q: "status j = Queued"
    using select_ready_mem [OF assms(2)] by (simp_all add: is_ready_def)
  have ids: "job_id j \<in> job_id ` set ?sel" using assms(2) by simp
  have jobs: "jobs (fst ?res) = map (claim_job now ?lease h arts (job_id ` set ?sel)) (jobs ?s1)"
    by (simp add: eq)
  have row: "find_job (fst ?res) (job_id j) = Some (claim_job now ?lease h arts (job_id ` set ?sel) j)"
    by (rule find_job_map [OF find_job_unique [OF pk1 mem] jobs]) simp
  have evs: "events (fst ?res) = events ?s1 @ map (claim_event h arts) (map row_of ?sel)"
    by (simp add: eq)
  have ret: "snd ?res = filter (\<lambda>r. \<not> check_dedupe arts (cj_dedupe_key r)) (map row_of ?sel)"
    by (simp add: eq)
  have hit: "find_job (fst ?res) (job_id j) = Some (j\<lparr>status := Done, holder := Some h, updated_at := now\<rparr>)
      \<and> (\<exists>evs. events (fst ?res) = events ?s1 @ evs
            \<and> \<lparr>ev_job = job_id j, ev_kind = DedupeSkip,
                 ev_msg = take 500 (''artifact exists for '' @ k)\<rparr> \<in> set evs)
      \<and> job_id j \<notin> cj_id ` set (snd ?res)"
    if h: "dedupe_key j = Some k \<and> arts = Some names \<and> f \<in> set names \<and> f \<noteq> [] \<and> stem f = k"
  proof -
    from h check_dedupe_hit [of f names] have cd: "check_dedupe arts (dedupe_key j)" by auto
    from row ids q cd have a: "find_job (fst ?res) (job_id j) =
        Some (j\<lparr>status := Done, holder := Some h, updated_at := now\<rparr>)"
      by (simp add: claim_job_def dedupe_set_def)
    from cd h have "claim_event h arts (row_of j) =
        \<lparr>ev_job = job_id j, ev_kind = DedupeSkip, ev_msg = take 500 (''artifact exists for '' @ k)\<rparr>"
      by (simp add: claim_event_def)
    with assms(2) have "\<lparr>ev_job = job_id j, ev_kind = DedupeSkip,
        ev_msg = take 500 (''artifact exists for '' @ k)\<rparr> \<in> set (map (claim_event h arts) (map row_of ?sel))"
      by (force simp: image_iff)
    with evs have b: "\<exists>evs. events (fst ?res) = events ?s1 @ evs
        \<and> \<lparr>ev_job = job_id j, ev_kind = DedupeSkip,
             ev_msg = take 500 (''artifact exists for '' @ k)\<rparr> \<in> set evs"
      by blast
    have c: "job_id j \<notin> cj_id ` set (snd ?res)"
    proof
      assume "job_id j \<in> cj_id ` set (snd ?res)"
      then obtain x where x: "x \<in> set ?sel" "job_id x = job_id j"
        "\<not> check_dedupe arts (dedupe_key x)"
        unfolding ret by auto
      from pk_unique [OF pk1 select_ready_mem(1) [OF x(1)] mem x(2)] have "x = j" .
      with x(3) cd show False by simp
    qed
    from a b c show ?thesis by blast
  qed
  have miss: "find_job (fst ?res) (job_id j) =
        Some (j\<lparr>status := Running, holder := Some h, lease_until := Some ?lease,
                attempts := attempts j + 1, updated_at := now\<rparr>)
      \<and> row_of j \<in> set (snd ?res)"
    if "dedupe_key j = None \<or> arts = None"
  proof -
    from check_dedupe_miss [OF that] have cd: "\<not> check_dedupe arts (dedupe_key j)" .
    from row ids q cd have a: "find_job (fst ?res) (job_id j) =
        Some (j\<lparr>status := Running, holder := Some h, lease_until := Some ?lease,
                attempts := attempts j + 1, updated_at := now\<rparr>)"
      by (simp add: claim_job_def running_set_def)
    from assms(2) cd have "row_of j \<in> set (snd ?res)" unfolding ret by simp
    with a show ?thesis by blast
  qed
  from hit miss show ?thesis by blast
qed

theorem dedupe_short_circuit_witness:
  "stem ''abc123.bin'' = ''abc123''
   \<and> find_job (fst (claim_ready 1 1 ''w'' None 1 30000 (Some [''abc123.bin''])
        (run [CEnqueue 0 ''j'' 0 ''@cmd:true'' [] (Some ''abc123'') 3] empty_store))) ''j'' =
       Some \<lparr>job_id = ''j'', lane = 0, payload = ''@cmd:true'', status = Done, holder = Some ''w'',
             lease_until = None, created_at = 0, updated_at = 1, error = None, attempts = 0,
             max_attempts = 3, dedupe_key = Some ''abc123''\<rparr>
   \<and> ''j'' \<notin> cj_id ` set (snd (claim_ready 1 1 ''w'' None 1 30000 (Some [''abc123.bin''])
        (run [CEnqueue 0 ''j'' 0 ''@cmd:true'' [] (Some ''abc123'') 3] empty_store)))
   \<and> map status (jobs (fst (claim_ready 1 1 ''w'' None 1 30000 None
        (run [CEnqueue 0 ''j'' 0 ''@cmd:true'' [] (Some ''abc123'') 3] empty_store)))) = [Running]"
proof -
  let ?s = "run [CEnqueue 0 ''j'' 0 ''@cmd:true'' [] (Some ''abc123'') 3] empty_store"
  let ?j = "\<lparr>job_id = ''j'', lane = 0, payload = ''@cmd:true'', status = Queued, holder = None,
             lease_until = None, created_at = 0, updated_at = 0, error = None, attempts = 0,
             max_attempts = 3, dedupe_key = Some ''abc123''\<rparr>"
  have pk: "jobs_pk ?s" by code_simp
  have sel: "?j \<in> set (select_ready (fst (requeue_stale 1 ?s)) None 1)" by code_simp
  have st: "stem ''abc123.bin'' = ''abc123''" by code_simp
  have run: "map status (jobs (fst (claim_ready 1 1 ''w'' None 1 30000 None ?s))) = [Running]"
    by code_simp
  from dedupe_short_circuit [OF pk sel, of "''abc123''" "Some [''abc123.bin'']" "[''abc123.bin'']"
      "''abc123.bin''" 1 "''w''" 30000] st run
  show ?thesis by simp
qed

subsection \<open>Batch slots\<close>



end
